theory Spec2Isabelle
  imports Main "HOL-Library.AList"
begin

section \<open>The gulp build of the report frontend\<close>

text \<open>
  The build script \<^verbatim>\<open>mlsnippet/report/frontend/gulpfile.js\<close> declares six gulp tasks
  (\<^verbatim>\<open>sass-preprocessor\<close>, \<^verbatim>\<open>css\<close>, \<^verbatim>\<open>ipython-css\<close>, \<^verbatim>\<open>js\<close>, \<^verbatim>\<open>html\<close>, \<^verbatim>\<open>default\<close>);
  an earlier revision of the same script (tasks \<^verbatim>\<open>styles\<close>, \<^verbatim>\<open>js\<close>, \<^verbatim>\<open>html\<close>, \<^verbatim>\<open>default\<close>) is kept
  beside it. Each task is a \<^verbatim>\<open>pump\<close> pipeline: \<^verbatim>\<open>gulp.src\<close> reads files, plugins transform them
  one after another, \<^verbatim>\<open>gulp.dest\<close> writes them; when a plugin reports an error, \<^verbatim>\<open>pump\<close> ends
  the pipeline and hands the error to the callback of the task.

  File contents are strings of bytes (8-bit characters). The file system is an association
  list from paths, written relative to the directory of the script, to contents; what a
  path holds is \<open>map_of\<close>. The transformations of the npm plugins (Sass, PostCSS plugins,
  Babel, UglifyJS, html-minifier, csso) are not part of the repository: they are
  parameters, functions on contents that can fail, and Sass and postcss-import are also
  given the files they can import. The regular expressions and replacement functions that
  the script itself hands to \<^verbatim>\<open>gulp-replace\<close> are modelled character by character.
  \<^verbatim>\<open>gulp-replace\<close> and \<^verbatim>\<open>fs.readFileSync(..., 'utf-8')\<close> decode the bytes of a file as UTF-8;
  the regular expressions then work on the decoded text, which is written here in its
  UTF-8 encoding: the patterns of the script are ASCII, and every byte below \<^verbatim>\<open>0x80\<close> of a
  well-formed UTF-8 text is a character of its own, so matching on the encoding finds the
  matches of the decoded text. The task declarations with a list of dependencies are those
  of gulp 3, whose \<^verbatim>\<open>gulp.src\<close> skips a path that names no file and removes a byte order mark
  from the start of every file it reads.
\<close>

subsection \<open>Strings\<close>

fun strip_prefix :: "string \<Rightarrow> string \<Rightarrow> string option" where
  "strip_prefix [] s = Some s"
| "strip_prefix (p # ps) [] = None"
| "strip_prefix (p # ps) (c # cs) = (if p = c then strip_prefix ps cs else None)"

definition ends_with :: "string \<Rightarrow> string \<Rightarrow> bool" where
  "ends_with ext n = (strip_prefix (rev ext) (rev n) \<noteq> None)"

definition dquote :: char where
  "dquote = CHR 0x22"

definition squote :: char where
  "squote = CHR 0x27"

text \<open>
  The UTF-8 byte order mark, and what \<^verbatim>\<open>strip-bom\<close> (called by \<^verbatim>\<open>gulp.src\<close> on every buffer
  it reads) does: one mark at the very start is removed.
\<close>

definition byte_order_mark :: string where
  "byte_order_mark = [CHR 0xEF, CHR 0xBB, CHR 0xBF]"

definition strip_bom :: "string \<Rightarrow> string" where
  "strip_bom c = (case strip_prefix byte_order_mark c of None \<Rightarrow> c | Some r \<Rightarrow> r)"

text \<open>
  The line terminators of an ECMAScript regular expression are LF, CR, U+2028 (line
  separator) and U+2029 (paragraph separator); in UTF-8 the last two are the byte
  sequences \<^verbatim>\<open>E2 80 A8\<close> and \<^verbatim>\<open>E2 80 A9\<close>. \<open>terminator_at s\<close> is the line terminator that
  \<open>s\<close> starts with, and what follows it.
\<close>

definition line_separator :: string where
  "line_separator = [CHR 0xE2, CHR 0x80, CHR 0xA8]"

definition paragraph_separator :: string where
  "paragraph_separator = [CHR 0xE2, CHR 0x80, CHR 0xA9]"

definition line_terminators :: "string list" where
  "line_terminators = [[CHR 0x0A], [CHR 0x0D], line_separator, paragraph_separator]"

fun first_prefix :: "string list \<Rightarrow> string \<Rightarrow> (string \<times> string) option" where
  "first_prefix [] s = None"
| "first_prefix (p # ps) s =
     (case strip_prefix p s of Some r \<Rightarrow> Some (p, r) | None \<Rightarrow> first_prefix ps s)"

definition terminator_at :: "string \<Rightarrow> (string \<times> string) option" where
  "terminator_at s = first_prefix line_terminators s"

subsection \<open>The regular expressions of the script\<close>

text \<open>
  Each matcher tries its expression at the first character of the input, as the ECMAScript
  backtracking matcher does at one start position, and returns the matched text and the
  rest of the input.

  \<^verbatim>\<open>/<link href="bundle\.css"[^>]*>/\<close>: the literal, then the greedy class \<^verbatim>\<open>[^>]*\<close>, then
  \<^verbatim>\<open>>\<close>. The class cannot step over a \<^verbatim>\<open>>\<close>, so the only candidate for the closing
  \<^verbatim>\<open>>\<close> is the first one after the literal; giving characters back never helps.
\<close>

definition link_open :: string where
  \<open>link_open = ''<link href="bundle.css"''\<close>

definition match_link :: "string \<Rightarrow> (string \<times> string) option" where
  "match_link s =
     (case strip_prefix link_open s of
        None \<Rightarrow> None
      | Some r \<Rightarrow>
          (case dropWhile (\<lambda>c. c \<noteq> CHR ''>'') r of
             [] \<Rightarrow> None
           | g # post \<Rightarrow> Some (link_open @ takeWhile (\<lambda>c. c \<noteq> CHR ''>'') r @ [g], post)))"

text \<open>\<^verbatim>\<open>/<script src="bundle\.js"[^>]*><\/script>/\<close>: as above, then the literal closing tag.\<close>

definition script_open :: string where
  \<open>script_open = ''<script src="bundle.js"''\<close>

definition script_close :: string where
  "script_close = ''</script>''"

definition match_script :: "string \<Rightarrow> (string \<times> string) option" where
  "match_script s =
     (case strip_prefix script_open s of
        None \<Rightarrow> None
      | Some r \<Rightarrow>
          (case dropWhile (\<lambda>c. c \<noteq> CHR ''>'') r of
             [] \<Rightarrow> None
           | g # r' \<Rightarrow>
               (case strip_prefix script_close r' of
                  None \<Rightarrow> None
                | Some post \<Rightarrow>
                    Some (script_open @ takeWhile (\<lambda>c. c \<noteq> CHR ''>'') r @ [g] @ script_close,
                          post))))"

text \<open>
  \<^verbatim>\<open>/^@import (["'])~(.*?)\1/gm\<close>, tried at a position that \<^verbatim>\<open>^\<close> accepts: the literal
  \<^verbatim>\<open>@import \<close>, a quote (group 1), a tilde, the lazy \<^verbatim>\<open>.*?\<close> (group 2), and the same quote
  again. The lazy group \<open>lazy_dots\<close> first tries the quote and otherwise grows by one
  character, which \<^verbatim>\<open>.\<close> allows unless a line terminator starts there; so it stops at the
  first occurrence of the quote, and the match fails when the line ends first. The
  result is group 2 and the rest of the input.
\<close>

definition import_open :: string where
  "import_open = ''@import ''"

fun lazy_dots :: "char \<Rightarrow> string \<Rightarrow> (string \<times> string) option" where
  "lazy_dots q [] = None"
| "lazy_dots q (c # cs) =
     (if c = q then Some ([], cs)
      else if terminator_at (c # cs) \<noteq> None then None
      else map_option (\<lambda>(path, post). (c # path, post)) (lazy_dots q cs))"

definition match_import :: "string \<Rightarrow> (string \<times> string) option" where
  "match_import s =
     (case strip_prefix import_open s of
        None \<Rightarrow> None
      | Some [] \<Rightarrow> None
      | Some (q # r) \<Rightarrow>
          if q = dquote \<or> q = squote then
            (case r of
               [] \<Rightarrow> None
             | t # r' \<Rightarrow> if t = CHR ''~'' then lazy_dots q r' else None)
          else None)"

subsection \<open>\<^verbatim>\<open>gulp-replace\<close>: \<^verbatim>\<open>String.prototype.replace\<close> on the contents of a file\<close>

text \<open>
  With a regular expression that is not global, \<^verbatim>\<open>replace\<close> looks for the leftmost position
  at which the expression matches and replaces that one match; the replacement is what the
  callback returns, taken literally. The callbacks of the script call \<^verbatim>\<open>fs.readFileSync\<close>,
  which throws when the file is missing: the callback is a value \<open>string option\<close>, and it
  is only consulted when there is a match.
\<close>

fun replace_first ::
  "(string \<Rightarrow> (string \<times> string) option) \<Rightarrow> (string \<Rightarrow> string option) \<Rightarrow> string \<Rightarrow> string option"
where
  "replace_first m f [] =
     (case m [] of
        Some (tag, post) \<Rightarrow> map_option (\<lambda>r. r @ post) (f tag)
      | None \<Rightarrow> Some [])"
| "replace_first m f (c # cs) =
     (case m (c # cs) of
        Some (tag, post) \<Rightarrow> map_option (\<lambda>r. r @ post) (f tag)
      | None \<Rightarrow> map_option ((#) c) (replace_first m f cs))"

text \<open>
  With the flags \<^verbatim>\<open>gm\<close> every match is replaced, scanning from left to right and resuming
  after each match; \<^verbatim>\<open>^\<close> accepts the start of the input and every position that follows a
  line terminator. The flag \<open>bol\<close> says whether the current position is such a position.
  The replacement pattern \<^verbatim>\<open>'@import "$2"'\<close> inserts group 2 between double quotes.
\<close>

lemma strip_prefix_iff: "strip_prefix p s = Some r \<longleftrightarrow> s = p @ r"
  by (induction p s rule: strip_prefix.induct) auto

lemma first_prefix_Some:
  "first_prefix ps s = Some (p, r) \<Longrightarrow> p \<in> set ps \<and> s = p @ r"
  by (induction ps) (auto simp: strip_prefix_iff split: option.splits)

lemma terminator_at_Some:
  assumes "terminator_at s = Some (lt, rest)"
  shows "s = lt @ rest" and "lt \<noteq> []" and "lt \<in> set line_terminators"
  using first_prefix_Some[of line_terminators s lt rest] assms
  by (auto simp: terminator_at_def line_terminators_def line_separator_def paragraph_separator_def)

lemma lazy_dots_shorter: "lazy_dots q r = Some (path, post) \<Longrightarrow> length post < length r"
proof (induction r arbitrary: path)
  case Nil
  then show ?case by simp
next
  case (Cons c cs)
  show ?case
  proof (cases "c = q")
    case True
    with Cons.prems show ?thesis by simp
  next
    case False
    with Cons.prems obtain path' where "lazy_dots q cs = Some (path', post)"
      by (auto split: if_splits)
    then have "length post < length cs" by (rule Cons.IH)
    then show ?thesis by simp
  qed
qed

lemma match_import_shorter:
  assumes "match_import s = Some (path, post)"
  shows "length post < length s"
proof -
  from assms obtain q r' where s: "s = import_open @ q # CHR ''~'' # r'"
    and d: "lazy_dots q r' = Some (path, post)"
    by (auto simp: match_import_def strip_prefix_iff split: option.splits list.splits if_splits)
  from d have "length post < length r'" by (rule lazy_dots_shorter)
  with s show ?thesis by simp
qed

function replace_imports :: "bool \<Rightarrow> string \<Rightarrow> string" where
  "replace_imports bol [] = []"
| "replace_imports bol (c # cs) =
     (case (if bol then match_import (c # cs) else None) of
        Some (path, post) \<Rightarrow> import_open @ [dquote] @ path @ [dquote] @ replace_imports False post
      | None \<Rightarrow>
          (case terminator_at (c # cs) of
             Some (lt, rest) \<Rightarrow> lt @ replace_imports True rest
           | None \<Rightarrow> c # replace_imports False cs))"
  by pat_completeness auto
termination
proof (relation "measure (\<lambda>(bol, s). length s)")
  show "wf (measure (\<lambda>(bol, s). length s))" by simp
next
  fix bol c cs x2 x y
  assume "(if bol then match_import (c # cs) else None) = Some x2" "(x, y) = x2"
  then have "match_import (c # cs) = Some (x, y)" by (auto split: if_splits)
  then have "length y < length (c # cs)" by (rule match_import_shorter)
  then show "((False, y), bol, c # cs) \<in> measure (\<lambda>(bol, s). length s)" by simp
next
  fix bol c cs x2 x y
  assume "terminator_at (c # cs) = Some x2" "(x, y) = x2"
  then have t: "terminator_at (c # cs) = Some (x, y)" by simp
  from terminator_at_Some(1,2)[OF t] have "length y < length (c # cs)"
    by (cases x) (auto dest: arg_cong[where f = length])
  then show "((True, y), bol, c # cs) \<in> measure (\<lambda>(bol, s). length s)" by simp
next
  fix bol c cs
  show "((False, cs), bol, c # cs) \<in> measure (\<lambda>(bol, s). length s)" by simp
qed

subsection \<open>The file system and the files in a stream\<close>

type_synonym path = string

type_synonym fs = "(path \<times> string) list"

text \<open>
  \<^verbatim>\<open>fs.readFileSync(p, ...)\<close>: the bytes of the file, or \<open>None\<close> where it throws \<^verbatim>\<open>ENOENT\<close>.
  The decoding that the argument \<^verbatim>\<open>'utf-8'\<close> asks for is applied where the callbacks of
  the \<^verbatim>\<open>html\<close> task use the text.
\<close>

definition readFileSync :: "fs \<Rightarrow> path \<Rightarrow> string option" where
  "readFileSync fs p = map_of fs p"

text \<open>
  A file travelling through a pipeline (a vinyl object): the directory it was read from or
  last written to, its name relative to that directory, and its contents.
\<close>

record vinyl =
  base :: string
  relative :: string
  contents :: string

definition basename :: "path \<Rightarrow> string" where
  "basename p = rev (takeWhile (\<lambda>c. c \<noteq> CHR ''/'') (rev p))"

definition dirname :: "path \<Rightarrow> string" where
  "dirname p = rev (drop 1 (dropWhile (\<lambda>c. c \<noteq> CHR ''/'') (rev p)))"

text \<open>
  \<^verbatim>\<open>gulp.src('dir/*.ext')\<close>: the files directly in \<open>dir\<close> whose name ends in \<open>ext\<close>. The star
  of a glob matches neither a slash nor the dot of a hidden file. The contents of a file
  are its bytes without a byte order mark at the start.
\<close>

definition glob_name :: "string \<Rightarrow> string \<Rightarrow> bool" where
  "glob_name ext n =
     (ends_with ext n \<and> CHR ''/'' \<notin> set n \<and> (case n of [] \<Rightarrow> False | c # _ \<Rightarrow> c \<noteq> CHR ''.''))"

definition src_glob :: "string \<Rightarrow> string \<Rightarrow> fs \<Rightarrow> vinyl list" where
  "src_glob dir ext fs =
     List.map_filter
       (\<lambda>p. case strip_prefix (dir @ ''/'') p of
               None \<Rightarrow> None
             | Some n \<Rightarrow>
                 if glob_name ext n
                 then map_option (\<lambda>c. \<lparr>base = dir, relative = n, contents = strip_bom c\<rparr>) (map_of fs p)
                 else None)
       (remdups (map fst fs))"

text \<open>
  \<^verbatim>\<open>gulp.src([p1, p2, ...])\<close> with literal paths: the files in the order of the array; a
  path that names no file contributes nothing.
\<close>

definition src_paths :: "path list \<Rightarrow> fs \<Rightarrow> vinyl list" where
  "src_paths ps fs =
     List.map_filter
       (\<lambda>p. map_option (\<lambda>c. \<lparr>base = dirname p, relative = basename p, contents = strip_bom c\<rparr>)
              (map_of fs p))
       ps"

text \<open>\<^verbatim>\<open>gulp.dest(dir)\<close> writes every file under \<open>dir\<close> and passes it on, now based at \<open>dir\<close>.\<close>

definition dest_path :: "string \<Rightarrow> vinyl \<Rightarrow> path" where
  "dest_path dir v = dir @ ''/'' @ relative v"

definition dest_write :: "string \<Rightarrow> vinyl list \<Rightarrow> fs \<Rightarrow> fs" where
  "dest_write dir files fs = fold (\<lambda>v. AList.update (dest_path dir v) (contents v)) files fs"

definition dest_pass :: "string \<Rightarrow> vinyl list \<Rightarrow> vinyl list" where
  "dest_pass dir files = map (\<lambda>v. v\<lparr>base := dir\<rparr>) files"

subsection \<open>Plugins\<close>

text \<open>A plugin that rewrites the contents of each file and leaves its name alone.\<close>

definition map_contents :: "(string \<Rightarrow> string) \<Rightarrow> vinyl list \<Rightarrow> vinyl list" where
  "map_contents f files = map (\<lambda>v. v\<lparr>contents := f (contents v)\<rparr>) files"

text \<open>
  A plugin that can fail on a file: the first error (or exception) ends the pipeline, and
  the task does not complete.
\<close>

fun map_files_opt :: "(vinyl \<Rightarrow> vinyl option) \<Rightarrow> vinyl list \<Rightarrow> vinyl list option" where
  "map_files_opt f [] = Some []"
| "map_files_opt f (v # vs) =
     (case f v of
        None \<Rightarrow> None
      | Some w \<Rightarrow> map_option ((#) w) (map_files_opt f vs))"

definition map_contents_opt :: "(string \<Rightarrow> string option) \<Rightarrow> vinyl list \<Rightarrow> vinyl list option" where
  "map_contents_opt f files =
     map_files_opt (\<lambda>v. map_option (\<lambda>c. v\<lparr>contents := c\<rparr>) (f (contents v))) files"

text \<open>
  \<^verbatim>\<open>gulp-concat\<close>: one file holding the contents of all files, in the order of arrival,
  joined by a newline; nothing when no file arrives.
\<close>

fun join_newline :: "string list \<Rightarrow> string" where
  "join_newline [] = []"
| "join_newline [x] = x"
| "join_newline (x # y # ys) = x @ ''\<newline>'' @ join_newline (y # ys)"

definition concat_files :: "string \<Rightarrow> vinyl list \<Rightarrow> vinyl list" where
  "concat_files name files =
     (case files of
        [] \<Rightarrow> []
      | v # _ \<Rightarrow> [\<lparr>base = base v, relative = name, contents = join_newline (map contents files)\<rparr>])"

text \<open>
  \<^verbatim>\<open>gulp-sass\<close>: a file whose name starts with an underscore is a partial and is dropped;
  the extension of every other file becomes \<^verbatim>\<open>.css\<close>; an empty file is passed on as it
  is, and every other file is compiled. The compiler resolves imports in the directory of
  the file and in the include paths, so it is given the part of the file system that lies
  there. An error of the compiler is the error of the plugin.
\<close>

definition extname :: "string \<Rightarrow> string" where
  "extname n =
     (if CHR ''.'' \<in> set (drop 1 n) then CHR ''.'' # rev (takeWhile (\<lambda>c. c \<noteq> CHR ''.'') (rev n)) else [])"

definition replace_ext :: "string \<Rightarrow> string \<Rightarrow> string" where
  "replace_ext ext n = take (length n - length (extname n)) n @ ext"

definition is_partial :: "string \<Rightarrow> bool" where
  "is_partial n = (case n of [] \<Rightarrow> False | c # _ \<Rightarrow> c = CHR ''_'')"

definition lies_in :: "string \<Rightarrow> path \<Rightarrow> bool" where
  "lies_in dir p = (strip_prefix (dir @ ''/'') p \<noteq> None)"

definition visible :: "string list \<Rightarrow> fs \<Rightarrow> (path \<rightharpoonup> string)" where
  "visible dirs fs = (\<lambda>p. if list_ex (\<lambda>d. lies_in d p) dirs then map_of fs p else None)"

definition sass_contents ::
  "((path \<rightharpoonup> string) \<Rightarrow> string \<Rightarrow> string option) \<Rightarrow> (path \<rightharpoonup> string) \<Rightarrow> string \<Rightarrow> string option"
where
  "sass_contents compile view c = (if c = [] then Some c else compile view c)"

definition gulp_sass ::
  "((path \<rightharpoonup> string) \<Rightarrow> string \<Rightarrow> string option) \<Rightarrow> string list \<Rightarrow> fs \<Rightarrow> vinyl list \<Rightarrow>
   vinyl list option"
where
  "gulp_sass compile includePaths fs files =
     map_files_opt
       (\<lambda>v. map_option (\<lambda>c. v\<lparr>relative := replace_ext ''.css'' (relative v), contents := c\<rparr>)
              (sass_contents compile (visible (base v # includePaths) fs) (contents v)))
       (filter (\<lambda>v. \<not> is_partial (relative v)) files)"

text \<open>
  \<^verbatim>\<open>gulp-postcss\<close>: the plugins run on the contents in the order of the array; the error of
  a plugin is the error of the whole.
\<close>

fun run_plugins :: "(string \<Rightarrow> string option) list \<Rightarrow> string \<Rightarrow> string option" where
  "run_plugins [] c = Some c"
| "run_plugins (plugin # plugins) c =
     (case plugin c of None \<Rightarrow> None | Some c' \<Rightarrow> run_plugins plugins c')"

definition gulp_postcss :: "(string \<Rightarrow> string option) list \<Rightarrow> vinyl list \<Rightarrow> vinyl list option" where
  "gulp_postcss plugins files = map_contents_opt (run_plugins plugins) files"

text \<open>
  What the npm packages and the Node runtime supply. Every transformation of a package
  can fail (\<open>None\<close>). \<open>utf8\<close> is what is left of the bytes of a buffer once Node has
  decoded them as UTF-8 and encoded the resulting string again
  (\<^verbatim>\<open>new Buffer(String(contents))\<close> in \<^verbatim>\<open>gulp-replace\<close>, and the text that \<^verbatim>\<open>readFileSync\<close>
  returns): a well-formed UTF-8 text comes back as it is, byte order mark included, and in
  any other text the bytes that cannot be decoded come back as U+FFFD (\<^verbatim>\<open>EF BF BD\<close>); how
  many of these stand for one ill-formed sequence depends on the version of Node, so the
  function is left open. It cannot fail.
\<close>

record tools =
  utf8 :: "string \<Rightarrow> string"
  sass :: "(path \<rightharpoonup> string) \<Rightarrow> string \<Rightarrow> string option"
  autoprefixer :: "string \<Rightarrow> string option"
  atImport :: "(path \<rightharpoonup> string) \<Rightarrow> string \<Rightarrow> string option"
  cssnano :: "string \<Rightarrow> string option"
  cssmin :: "string \<Rightarrow> string option"
  babel :: "string \<Rightarrow> string option"
  uglify :: "string \<Rightarrow> string option"
  htmlmin :: "string \<Rightarrow> string option"

subsection \<open>The tasks of \<^verbatim>\<open>gulpfile.js\<close>\<close>

text \<open>
  The result of a task that can fail is \<open>None\<close> when a plugin reports an error or a
  callback throws; nothing is said then about what has been written.
\<close>

definition requireJsPath :: path where
  "requireJsPath = ''node_modules/requirejs/require.js''"

definition sass_preprocessor :: "tools \<Rightarrow> fs \<Rightarrow> fs" where
  "sass_preprocessor T fs =
     dest_write ''dist/scss''
       (map_contents (\<lambda>c. replace_imports True (utf8 T c)) (src_glob ''src/scss'' ''.scss'' fs))
       fs"

definition css :: "tools \<Rightarrow> fs \<Rightarrow> fs option" where
  "css T fs =
     (let includePaths = [''dist/scss'', ''node_modules''];
          postCssPlugins = [autoprefixer T, atImport T (visible includePaths fs), cssnano T]
      in map_option (\<lambda>files. dest_write ''dist'' files fs)
           (Option.bind (gulp_sass (sass T) includePaths fs (src_glob ''dist/scss'' ''.scss'' fs))
              (gulp_postcss postCssPlugins)))"

definition ipython_css :: "fs \<Rightarrow> fs" where
  "ipython_css fs = dest_write ''../templates'' (src_paths [''dist/ipython.css''] fs) fs"

text \<open>
  The \<^verbatim>\<open>js\<close> task of the two revisions differs in the name given to \<^verbatim>\<open>concat\<close> only
  (\<^verbatim>\<open>main.js\<close>, earlier \<^verbatim>\<open>bundle.js\<close>).
\<close>

definition js_pipeline :: "string \<Rightarrow> tools \<Rightarrow> fs \<Rightarrow> fs option" where
  "js_pipeline name T fs =
     map_option (\<lambda>files. dest_write ''dist'' files fs)
       (Option.bind
          (map_contents_opt (babel T)
             (concat_files name (src_paths [requireJsPath, ''src/js/main.js''] fs)))
          (map_contents_opt (uglify T)))"

definition js :: "tools \<Rightarrow> fs \<Rightarrow> fs option" where
  "js = js_pipeline ''main.js''"

text \<open>
  The callbacks given to \<^verbatim>\<open>replace\<close> in the \<^verbatim>\<open>html\<close> task ignore the matched text \<open>s\<close>, read
  the bundle and wrap it in its element.
\<close>

definition style_element :: "string \<Rightarrow> string" where
  "style_element style = ''<style>\<newline>'' @ style @ ''\<newline></style>''"

definition script_element :: "string \<Rightarrow> string" where
  \<open>script_element script = ''<script type="text/javascript">\<newline>'' @ script @ ''\<newline></script>''\<close>

definition inline_css :: "string option \<Rightarrow> string \<Rightarrow> string option" where
  "inline_css bundle = replace_first match_link (\<lambda>s. map_option style_element bundle)"

definition inline_js :: "string option \<Rightarrow> string \<Rightarrow> string option" where
  "inline_js bundle = replace_first match_script (\<lambda>s. map_option script_element bundle)"

text \<open>
  The \<^verbatim>\<open>html\<close> task of the two revisions differs in the two paths that the callbacks read
  (\<^verbatim>\<open>dist/main.css\<close> and \<^verbatim>\<open>dist/main.js\<close>, earlier \<^verbatim>\<open>dist/bundle.css\<close> and
  \<^verbatim>\<open>dist/bundle.js\<close>). Each of the two \<^verbatim>\<open>replace\<close> plugins decodes the contents it is given,
  and so does \<^verbatim>\<open>readFileSync\<close> with the bundle. The task writes \<^verbatim>\<open>.html\<close> files only, so
  what the callbacks read does not change while it runs.
\<close>

definition html_pipeline :: "path \<Rightarrow> path \<Rightarrow> tools \<Rightarrow> fs \<Rightarrow> fs option" where
  "html_pipeline cssPath jsPath T fs =
     (let style = map_option (utf8 T) (readFileSync fs cssPath);
          script = map_option (utf8 T) (readFileSync fs jsPath)
      in map_option
           (\<lambda>files. dest_write ''../templates'' (dest_pass ''dist'' files) (dest_write ''dist'' files fs))
           (Option.bind
              (Option.bind
                 (map_contents_opt (\<lambda>c. inline_css style (utf8 T c)) (src_glob ''src/html'' ''.html'' fs))
                 (map_contents_opt (\<lambda>c. inline_js script (utf8 T c))))
              (map_contents_opt (htmlmin T))))"

definition html :: "tools \<Rightarrow> fs \<Rightarrow> fs option" where
  "html = html_pipeline ''dist/main.css'' ''dist/main.js''"

subsection \<open>The tasks of the earlier revision\<close>

definition skeletonCssRoot :: string where
  "skeletonCssRoot = ''node_modules/skeleton-css/css/''"

definition styles :: "tools \<Rightarrow> fs \<Rightarrow> fs option" where
  "styles T fs =
     map_option (\<lambda>files. dest_write ''dist'' files fs)
       (Option.bind
          (Option.bind
             (map_option (concat_files ''bundle.css'')
                (gulp_sass (sass T) [] fs
                   (src_paths [skeletonCssRoot @ ''normalize.css'', skeletonCssRoot @ ''skeleton.css'',
                               ''src/scss/main.scss''] fs)))
             (map_contents_opt (autoprefixer T)))
          (map_contents_opt (cssmin T)))"

definition js_v0 :: "tools \<Rightarrow> fs \<Rightarrow> fs option" where
  "js_v0 = js_pipeline ''bundle.js''"

definition html_v0 :: "tools \<Rightarrow> fs \<Rightarrow> fs option" where
  "html_v0 = html_pipeline ''dist/bundle.css'' ''dist/bundle.js''"

subsection \<open>Task dependencies\<close>

text \<open>
  \<^verbatim>\<open>gulp.task(name, deps, fn)\<close> registers a task with the orchestrator of gulp 3. A task is
  started once, and only after every task in \<open>deps\<close> has reported completion; tasks that
  are ready run concurrently. A task function that takes the callback \<open>cb\<close> has completed
  when \<open>cb\<close> is called. Every pipeline hands \<open>cb\<close> to \<^verbatim>\<open>pump\<close> except the one of
  \<^verbatim>\<open>ipython-css\<close>, which therefore never reports completion; \<^verbatim>\<open>default\<close> has no function and
  completes at once.
\<close>

datatype task = Sass_preprocessor | Css | Ipython_css | Js | Html | Default

fun deps :: "task \<Rightarrow> task list" where
  "deps Sass_preprocessor = []"
| "deps Css = [Sass_preprocessor]"
| "deps Ipython_css = [Css]"
| "deps Js = []"
| "deps Html = [Css, Js]"
| "deps Default = [Html, Ipython_css]"

fun task_fn :: "tools \<Rightarrow> task \<Rightarrow> fs \<Rightarrow> fs option" where
  "task_fn T Sass_preprocessor fs = Some (sass_preprocessor T fs)"
| "task_fn T Css fs = css T fs"
| "task_fn T Ipython_css fs = Some (ipython_css fs)"
| "task_fn T Js fs = js T fs"
| "task_fn T Html fs = html T fs"
| "task_fn T Default fs = Some fs"

fun calls_cb :: "task \<Rightarrow> bool" where
  "calls_cb Ipython_css = False"
| "calls_cb t = True"

record build =
  files :: fs
  started :: "task list"
  finished :: "task list"

definition initial :: "fs \<Rightarrow> build" where
  "initial fs = \<lparr>files = fs, started = [], finished = []\<rparr>"

definition ready :: "build \<Rightarrow> task \<Rightarrow> bool" where
  "ready b t = (t \<notin> set (started b) \<and> list_all (\<lambda>d. d \<in> set (finished b)) (deps t))"

text \<open>
  One step of a build: a ready task runs. The tasks that run concurrently touch disjoint
  files, so the reads and writes of one task are taken together. An error or an exception
  stops the build (\<open>None\<close>): the orchestrator starts no further task.
\<close>

definition run_task :: "tools \<Rightarrow> task \<Rightarrow> build \<Rightarrow> build option" where
  "run_task T t b =
     (if ready b t then
        (case task_fn T t (files b) of
           None \<Rightarrow> None
         | Some fs' \<Rightarrow>
             Some \<lparr>files = fs', started = t # started b,
                   finished = (if calls_cb t then t # finished b else finished b)\<rparr>)
      else None)"

text \<open>An execution of the build: the tasks in the order in which they ran.\<close>

fun run :: "tools \<Rightarrow> task list \<Rightarrow> build \<Rightarrow> build option" where
  "run T [] b = Some b"
| "run T (t # ts) b = (case run_task T t b of None \<Rightarrow> None | Some b' \<Rightarrow> run T ts b')"

subsection \<open>The placeholders, as the specification describes them\<close>

text \<open>
  A placeholder tag is a fixed opening, any attributes, and the closing of the tag: for the
  style sheet \<^verbatim>\<open><link href="bundle.css" ...>\<close>, for the script
  \<^verbatim>\<open><script src="bundle.js" ...></script>\<close>.
\<close>

definition link_tag :: "string \<Rightarrow> bool" where
  "link_tag tag = (\<exists>attrs. tag = link_open @ attrs @ ''>'' \<and> CHR ''>'' \<notin> set attrs)"

definition script_tag :: "string \<Rightarrow> bool" where
  "script_tag tag = (\<exists>attrs. tag = script_open @ attrs @ ''>'' @ script_close \<and> CHR ''>'' \<notin> set attrs)"

text \<open>A tag of the kind \<open>P\<close> starts at position \<open>i\<close> of \<open>s\<close>.\<close>

definition occurs_at :: "(string \<Rightarrow> bool) \<Rightarrow> string \<Rightarrow> nat \<Rightarrow> bool" where
  "occurs_at P s i = (\<exists>k. P (take k (drop i s)))"


text \<open>
  \<open>s'\<close> is \<open>s\<close> with its first tag of the kind \<open>P\<close> replaced by \<open>r\<close>, or \<open>s\<close> itself when
  it holds no such tag.
\<close>

definition spec_replace_first :: "(string \<Rightarrow> bool) \<Rightarrow> string \<Rightarrow> string \<Rightarrow> string \<Rightarrow> bool" where
  "spec_replace_first P r s s' =
     ((\<exists>pre tag post. s = pre @ tag @ post \<and> P tag \<and> (\<forall>i<length pre. \<not> occurs_at P s i) \<and>
          s' = pre @ r @ post)
      \<or> (\<forall>i. \<not> occurs_at P s i) \<and> s' = s)"

subsection \<open>The rewriting of imports, as the specification describes it\<close>

text \<open>
  A text is a sequence of lines. \<open>split_line s\<close> is the first line of \<open>s\<close>, which ends
  where the first line terminator starts, together with that terminator and the text
  after it when there is one; \<open>lines_of s\<close> is the list of the lines of \<open>s\<close>, each with
  the terminator that ends it (none for the last line).
\<close>

fun split_line :: "string \<Rightarrow> string \<times> (string \<times> string) option" where
  "split_line [] = ([], None)"
| "split_line (c # cs) =
     (case terminator_at (c # cs) of
        Some (lt, rest) \<Rightarrow> ([], Some (lt, rest))
      | None \<Rightarrow> (case split_line cs of (l, t) \<Rightarrow> (c # l, t)))"

lemma split_line_shorter:
  "split_line s = (l, Some (lt, rest)) \<Longrightarrow> length rest < length s"
proof (induction s arbitrary: l)
  case Nil
  then show ?case by simp
next
  case (Cons c cs)
  show ?case
  proof (cases "terminator_at (c # cs)")
    case None
    with Cons.prems obtain l' where "split_line cs = (l', Some (lt, rest))"
      by (auto split: prod.splits)
    then have "length rest < length cs" by (rule Cons.IH)
    then show ?thesis by simp
  next
    case (Some a)
    with Cons.prems have t: "terminator_at (c # cs) = Some (lt, rest)"
      by (auto split: prod.splits)
    from terminator_at_Some(1,2)[OF t] show ?thesis
      by (cases lt) (auto dest: arg_cong[where f = length])
  qed
qed

function lines_of :: "string \<Rightarrow> (string \<times> string) list" where
  "lines_of s =
     (case split_line s of
        (l, None) \<Rightarrow> [(l, [])]
      | (l, Some (lt, rest)) \<Rightarrow> (l, lt) # lines_of rest)"
  by pat_completeness auto
termination
  by (relation "measure length") (auto dest: split_line_shorter[OF sym])

declare lines_of.simps [simp del]

text \<open>
  A line that begins with an import of a path that starts with a tilde, that is with
  \<^verbatim>\<open>@import \<close>, a single or double quote, the tilde, and a path that the same quote ends,
  becomes \<^verbatim>\<open>@import "path"\<close> followed by what follows the closing quote; any other line
  stays as it is.
\<close>

definition spec_rewrite_line :: "string \<Rightarrow> string" where
  "spec_rewrite_line l =
     (case strip_prefix import_open l of
        Some (q # t # r) \<Rightarrow>
          if (q = dquote \<or> q = squote) \<and> t = CHR ''~'' \<and> q \<in> set r
          then import_open @ [dquote] @ takeWhile (\<lambda>c. c \<noteq> q) r @ [dquote] @
               drop 1 (dropWhile (\<lambda>c. c \<noteq> q) r)
          else l
      | _ \<Rightarrow> l)"

text \<open>A text is rewritten line by line; the line terminators stay where they are.\<close>

definition spec_rewrite :: "string \<Rightarrow> string" where
  "spec_rewrite s = concat (map (\<lambda>(l, t). spec_rewrite_line l @ t) (lines_of s))"

subsection \<open>The style pipeline, as the specification describes it\<close>


subsection \<open>What the style tasks hand to \<^verbatim>\<open>gulp.dest\<close>\<close>

text \<open>
  The contents that the \<^verbatim>\<open>css\<close> task computes from the contents of one preprocessed source
  as \<^verbatim>\<open>gulp.src\<close> delivers them, the sources that it compiles, the files that its pipeline
  hands to \<^verbatim>\<open>gulp.dest\<close> when no plugin fails, and those of \<^verbatim>\<open>sass-preprocessor\<close>.
\<close>

definition css_contents :: "tools \<Rightarrow> fs \<Rightarrow> string \<Rightarrow> string option" where
  "css_contents T fs d =
     Option.bind
       (sass_contents (sass T) (visible [''dist/scss'', ''dist/scss'', ''node_modules''] fs) d)
       (run_plugins [autoprefixer T, atImport T (visible [''dist/scss'', ''node_modules''] fs), cssnano T])"

definition css_in :: "fs \<Rightarrow> vinyl list" where
  "css_in fs = filter (\<lambda>v. \<not> is_partial (relative v)) (src_glob ''dist/scss'' ''.scss'' fs)"

definition css_out :: "tools \<Rightarrow> fs \<Rightarrow> vinyl list" where
  "css_out T fs =
     map (\<lambda>v. v\<lparr>relative := replace_ext ''.css'' (relative v),
               contents := the (css_contents T fs (contents v))\<rparr>)
       (css_in fs)"

definition pre_out :: "tools \<Rightarrow> fs \<Rightarrow> vinyl list" where
  "pre_out T fs = map_contents (\<lambda>c. replace_imports True (utf8 T c)) (src_glob ''src/scss'' ''.scss'' fs)"

subsection \<open>What the \<^verbatim>\<open>html\<close> pipeline does to one file\<close>

text \<open>
  The three plugins between \<^verbatim>\<open>gulp.src\<close> and \<^verbatim>\<open>gulp.dest\<close> applied to the contents of one
  template as \<^verbatim>\<open>gulp.src\<close> delivers them, \<open>style\<close> and \<open>script\<close> being what \<^verbatim>\<open>readFileSync\<close>
  finds at the two paths; and the files that reach \<^verbatim>\<open>gulp.dest\<close> when nothing fails.
\<close>

definition html_contents :: "string option \<Rightarrow> string option \<Rightarrow> tools \<Rightarrow> string \<Rightarrow> string option" where
  "html_contents style script T t =
     Option.bind
       (Option.bind (inline_css (map_option (utf8 T) style) (utf8 T t))
          (\<lambda>u. inline_js (map_option (utf8 T) script) (utf8 T u)))
       (htmlmin T)"

definition html_out :: "path \<Rightarrow> path \<Rightarrow> tools \<Rightarrow> fs \<Rightarrow> vinyl list" where
  "html_out cssPath jsPath T fs =
     map_contents (\<lambda>c. the (html_contents (readFileSync fs cssPath) (readFileSync fs jsPath) T c))
       (src_glob ''src/html'' ''.html'' fs)"

subsection \<open>The input files of a task\<close>



subsection \<open>What holds in every state of a build\<close>

text \<open>
  The invariant of a build that started from the files \<open>fs0\<close>: a task has started before
  it has finished; the dependencies of every started task have finished; a started task
  that calls its callback has finished; no file has disappeared; the products of the
  started tasks exist, for the sources \<^verbatim>\<open>main.scss\<close>, \<^verbatim>\<open>ipython.scss\<close> and \<^verbatim>\<open>src/js/main.js\<close>
  that were there at the start; and once \<^verbatim>\<open>ipython-css\<close> has run, \<^verbatim>\<open>../templates\<close> holds
  what \<^verbatim>\<open>gulp.src\<close> reads from \<^verbatim>\<open>dist/ipython.css\<close>.
\<close>

definition good :: "fs \<Rightarrow> build \<Rightarrow> bool" where
  "good fs0 b =
     (set (finished b) \<subseteq> set (started b) \<and>
      list_all (\<lambda>t. list_all (\<lambda>d. d \<in> set (finished b)) (deps t)) (started b) \<and>
      list_all (\<lambda>t. \<not> calls_cb t \<or> t \<in> set (finished b)) (started b) \<and>
      (\<forall>p. map_of fs0 p \<noteq> None \<longrightarrow> map_of (files b) p \<noteq> None) \<and>
      (\<forall>n. map_of fs0 (''src/scss/'' @ n @ ''.scss'') \<noteq> None \<and> n \<in> {''main'', ''ipython''} \<longrightarrow>
         (Sass_preprocessor \<in> set (started b) \<longrightarrow> map_of (files b) (''dist/scss/'' @ n @ ''.scss'') \<noteq> None) \<and>
         (Css \<in> set (started b) \<longrightarrow> map_of (files b) (''dist/'' @ n @ ''.css'') \<noteq> None)) \<and>
      (map_of fs0 ''src/js/main.js'' \<noteq> None \<and> Js \<in> set (started b) \<longrightarrow>
         map_of (files b) ''dist/main.js'' \<noteq> None) \<and>
      (map_of fs0 ''src/scss/ipython.scss'' \<noteq> None \<and> Ipython_css \<in> set (started b) \<longrightarrow>
         map_of (files b) ''../templates/ipython.css'' =
           map_option strip_bom (map_of (files b) ''dist/ipython.css'')))"

subsection \<open>Example inputs\<close>

text \<open>
  Tools that leave every file as it is, and a small site with its bundles built, under
  the names of both revisions. Leaving a text as it is is what \<open>utf8\<close> does to well-formed
  UTF-8, which all the files of the examples are.
\<close>

definition plain_tools :: tools where
  "plain_tools =
     \<lparr>utf8 = (\<lambda>c. c), sass = (\<lambda>view c. Some c), autoprefixer = Some, atImport = (\<lambda>view c. Some c),
      cssnano = Some, cssmin = Some, babel = Some, uglify = Some, htmlmin = Some\<rparr>"

definition demo_site :: fs where
  \<open>demo_site =
     [(''src/html/index.html'',
       ''<p><link href="bundle.css" rel="stylesheet"><link href="bundle.css"><script src="bundle.js" defer></script>''),
      (''dist/main.css'', ''a{}''),
      (''dist/main.js'', ''f()''),
      (''dist/bundle.css'', ''a{}''),
      (''dist/bundle.js'', ''f()''),
      (''node_modules/requirejs/require.js'', ''R''),
      (''src/js/main.js'', ''M'')]\<close>

definition demo_html :: string where
  \<open>demo_html =
     ''<p><style>\<newline>a{}\<newline></style><link href="bundle.css"><script type="text/javascript">\<newline>f()\<newline></script>''\<close>



definition demo_styles :: fs where
  \<open>demo_styles =
     [(''src/scss/ipython.scss'', ''a{}''),
      (''src/scss/main.scss'', ''@import '~skeleton-css/css/skeleton';\<newline>b{}''),
      (''node_modules/skeleton-css/css/normalize.css'', ''n{}''),
      (''node_modules/skeleton-css/css/skeleton.css'', ''s{}'')]\<close>

definition demo_main_scss :: string where
  \<open>demo_main_scss = ''@import "skeleton-css/css/skeleton";\<newline>b{}''\<close>

text \<open>The sources of a whole project.\<close>

definition demo_project :: fs where
  \<open>demo_project =
     demo_styles @
     [(''node_modules/requirejs/require.js'', ''R''),
      (''src/js/main.js'', ''M''),
      (''src/html/index.html'', ''<link href="bundle.css"><script src="bundle.js"></script>'')]\<close>

text \<open>
  A style sheet that starts with a byte order mark; one whose lines are ended by U+2028,
  U+2029, CR and LF, with what the preprocessor makes of it; and two sites without
  bundles, whose only template holds a placeholder in the one and none in the other.
\<close>

definition marked_styles :: fs where
  "marked_styles = [(''src/scss/a.scss'', byte_order_mark @ ''a{}'')]"

definition separated_styles :: fs where
  \<open>separated_styles =
     [(''src/scss/b.scss'',
       ''x'' @ line_separator @ ''@import "~y";'' @ paragraph_separator @ ''@import '~z';'' @
       [CHR 0x0D] @ ''@import "~w" screen;'' @ [CHR 0x0A] @ '' @import "~v";'')]\<close>

definition separated_scss :: string where
  \<open>separated_scss =
     ''x'' @ line_separator @ ''@import "y";'' @ paragraph_separator @ ''@import "z";'' @
     [CHR 0x0D] @ ''@import "w" screen;'' @ [CHR 0x0A] @ '' @import "~v";''\<close>

text \<open>
  A site whose sources all start with a byte order mark, and tools whose cssnano puts a
  byte order mark in front of its output.
\<close>

definition marked_site :: fs where
  \<open>marked_site =
     [(''src/html/index.html'', byte_order_mark @ ''<link href="bundle.css">''),
      (''dist/main.css'', ''a{}''),
      (''dist/main.js'', ''f()''),
      (''node_modules/requirejs/require.js'', byte_order_mark @ ''R''),
      (''src/js/main.js'', byte_order_mark @ ''M'')]\<close>

definition marking_tools :: tools where
  "marking_tools = plain_tools\<lparr>cssnano := (\<lambda>c. Some (byte_order_mark @ c))\<rparr>"



section \<open>Properties\<close>

subsection \<open>Writing and reading files\<close>

lemma dest_write_snoc:
  "dest_write dir (xs @ [x]) fs = AList.update (dest_path dir x) (contents x) (dest_write dir xs fs)"
  by (simp add: dest_write_def)

lemma map_of_dest_write:
  "map_of (dest_write dir fls fs) p =
     (case find (\<lambda>v. dest_path dir v = p) (rev fls) of
        Some v \<Rightarrow> Some (contents v)
      | None \<Rightarrow> map_of fs p)"
proof (induction fls rule: rev_induct)
  case Nil
  show ?case by (simp add: dest_write_def)
next
  case (snoc x xs)
  then show ?case by (simp add: dest_write_snoc update_conv')
qed

lemma lies_in_dest_path: "lies_in dir (dest_path dir v)"
  by (simp add: lies_in_def dest_path_def strip_prefix_iff)

lemma dest_write_other:
  assumes "\<And>v. v \<in> set fls \<Longrightarrow> dest_path dir v \<noteq> p"
  shows "map_of (dest_write dir fls fs) p = map_of fs p"
proof -
  have "find (\<lambda>v. dest_path dir v = p) (rev fls) = None"
    using assms by (auto simp: find_None_iff)
  then show ?thesis by (simp add: map_of_dest_write)
qed

lemma dest_write_frame:
  "\<not> lies_in dir p \<Longrightarrow> map_of (dest_write dir fls fs) p = map_of fs p"
  using lies_in_dest_path by (intro dest_write_other) auto

lemma find_Some_set: "find P xs = Some x \<Longrightarrow> x \<in> set xs \<and> P x"
  by (induction xs) (auto split: if_splits)

lemma dest_write_hit:
  assumes "distinct (map relative fls)" and "v \<in> set fls"
  shows "map_of (dest_write dir fls fs) (dest_path dir v) = Some (contents v)"
proof -
  obtain w where w: "find (\<lambda>u. dest_path dir u = dest_path dir v) (rev fls) = Some w"
    using assms(2) by (cases "find (\<lambda>u. dest_path dir u = dest_path dir v) (rev fls)") (auto simp: find_None_iff)
  then have "w \<in> set fls" "relative w = relative v"
    by (auto dest!: find_Some_set simp: dest_path_def)
  with assms have "w = v" by (meson distinct_map inj_onD)
  with w show ?thesis by (simp add: map_of_dest_write)
qed

lemma dest_write_mono:
  "map_of fs p \<noteq> None \<Longrightarrow> map_of (dest_write dir fls fs) p \<noteq> None"
  by (simp add: map_of_dest_write split: option.splits)

lemma set_map_filter: "set (List.map_filter f xs) = {y. \<exists>x\<in>set xs. f x = Some y}"
  by (induction xs) (auto split: option.splits)

lemma distinct_map_filter_inj:
  assumes "distinct xs"
    and "\<And>x y a b. x \<in> set xs \<Longrightarrow> y \<in> set xs \<Longrightarrow> f x = Some a \<Longrightarrow> f y = Some b \<Longrightarrow> g a = g b \<Longrightarrow> x = y"
  shows "distinct (map g (List.map_filter f xs))"
  using assms
proof (induction xs)
  case Nil
  show ?case by simp
next
  case (Cons x xs)
  have ih: "distinct (map g (List.map_filter f xs))"
    using Cons by auto
  show ?case
  proof (cases "f x")
    case None
    with ih show ?thesis by simp
  next
    case (Some a)
    have "g a \<notin> g ` set (List.map_filter f xs)"
    proof
      assume "g a \<in> g ` set (List.map_filter f xs)"
      then obtain b y where "y \<in> set xs" "f y = Some b" "g a = g b"
        by (auto simp: set_map_filter)
      with Some Cons.prems(2)[of x y a b] have "x = y" by simp
      with \<open>y \<in> set xs\<close> Cons.prems(1) show False by simp
    qed
    with ih Some show ?thesis by simp
  qed
qed

lemma src_glob_iff:
  "v \<in> set (src_glob dir ext fs) \<longleftrightarrow>
     base v = dir \<and> glob_name ext (relative v) \<and>
     (\<exists>c. map_of fs (dir @ ''/'' @ relative v) = Some c \<and> contents v = strip_bom c)"
  (is "?L \<longleftrightarrow> ?R")
proof
  assume ?L
  then show ?R
    by (auto simp: src_glob_def set_map_filter strip_prefix_iff split: option.splits if_splits)
next
  assume r: ?R
  then obtain c where c: "map_of fs (dir @ ''/'' @ relative v) = Some c" "contents v = strip_bom c"
    by blast
  let ?p = "dir @ ''/'' @ relative v"
  let ?f = "\<lambda>p. case strip_prefix (dir @ ''/'') p of
               None \<Rightarrow> None
             | Some n \<Rightarrow>
                 if glob_name ext n
                 then map_option (\<lambda>c. \<lparr>base = dir, relative = n, contents = strip_bom c\<rparr>) (map_of fs p)
                 else None"
  from c have "?p \<in> set (remdups (map fst fs))"
    by (auto dest: map_of_SomeD intro: rev_image_eqI)
  moreover have "strip_prefix (dir @ ''/'') ?p = Some (relative v)"
    by (simp add: strip_prefix_iff)
  with r c have "?f ?p = Some v" by simp
  ultimately have "v \<in> set (List.map_filter ?f (remdups (map fst fs)))"
    unfolding set_map_filter by blast
  then show ?L by (simp add: src_glob_def)
qed

lemma src_glob_member:
  assumes "glob_name ext n" and "map_of fs (dir @ ''/'' @ n) = Some c"
  shows "\<lparr>base = dir, relative = n, contents = strip_bom c\<rparr> \<in> set (src_glob dir ext fs)"
  using assms by (simp add: src_glob_iff)

lemma src_glob_distinct: "distinct (map relative (src_glob dir ext fs))"
  unfolding src_glob_def
  by (rule distinct_map_filter_inj)
     (auto simp: strip_prefix_iff split: option.splits if_splits)

lemma map_files_opt_eq:
  "map_files_opt f fls =
     (if \<forall>v\<in>set fls. f v \<noteq> None then Some (map (\<lambda>v. the (f v)) fls) else None)"
  by (induction fls) (auto split: option.splits)

lemma map_files_opt_bind:
  "Option.bind (map_files_opt f fls) (map_files_opt g) =
     map_files_opt (\<lambda>v. Option.bind (f v) g) fls"
  by (induction fls) (auto split: option.splits Option.bind_splits)

lemma map_contents_opt_eq:
  "map_contents_opt f fls =
     (if \<forall>v\<in>set fls. f (contents v) \<noteq> None
      then Some (map_contents (\<lambda>c. the (f c)) fls) else None)"
  by (auto simp: map_contents_opt_def map_files_opt_eq map_contents_def)

lemma map_contents_opt_bind:
  "Option.bind (map_contents_opt f fls) (map_contents_opt g) =
     map_contents_opt (\<lambda>c. Option.bind (f c) g) fls"
proof -
  have "(\<lambda>v. Option.bind (map_option (\<lambda>c. v\<lparr>contents := c\<rparr>) (f (contents v)))
               (\<lambda>v. map_option (\<lambda>c. v\<lparr>contents := c\<rparr>) (g (contents v)))) =
        (\<lambda>v. map_option (\<lambda>c. v\<lparr>contents := c\<rparr>) (Option.bind (f (contents v)) g))"
    by (auto simp: fun_eq_iff split: Option.bind_splits)
  then show ?thesis
    unfolding map_contents_opt_def map_files_opt_bind
    by (rule arg_cong[where f = "\<lambda>h. map_files_opt h fls"])
qed

lemma relative_map_contents: "map relative (map_contents f fls) = map relative fls"
  by (simp add: map_contents_def)

lemma relative_dest_pass: "map relative (dest_pass dir fls) = map relative fls"
  by (simp add: dest_pass_def)

lemma in_map_contents:
  "v \<in> set (map_contents f fls) \<longleftrightarrow> (\<exists>u\<in>set fls. v = u\<lparr>contents := f (contents u)\<rparr>)"
  by (auto simp: map_contents_def)

lemma src_paths_Cons:
  "src_paths (a # ps) fs =
     (case map_of fs a of
        None \<Rightarrow> src_paths ps fs
      | Some c \<Rightarrow> \<lparr>base = dirname a, relative = basename a, contents = strip_bom c\<rparr> # src_paths ps fs)"
  by (simp add: src_paths_def split: option.splits)

lemma src_paths_Nil: "src_paths [] fs = []"
  by (simp add: src_paths_def)

lemma js_pipeline_result:
  assumes "map_of fs requireJsPath = Some r" and "map_of fs ''src/js/main.js'' = Some m"
  shows "js_pipeline name T fs =
           map_option (\<lambda>out. AList.update (''dist/'' @ name) out fs)
             (Option.bind (babel T (strip_bom r @ ''\<newline>'' @ strip_bom m)) (uglify T))"
  using assms
  by (simp add: js_pipeline_def src_paths_Cons src_paths_Nil concat_files_def map_contents_opt_bind
      map_contents_opt_def dest_write_def dest_path_def option.map_comp comp_def
      split: Option.bind_splits option.splits)

subsection \<open>The regular expressions and the placeholders\<close>

lemma dropWhile_eq_Cons_iff:
  "dropWhile P xs = g # post \<longleftrightarrow> xs = takeWhile P xs @ g # post \<and> \<not> P g"
proof
  assume a: "dropWhile P xs = g # post"
  have "xs = takeWhile P xs @ dropWhile P xs" by simp
  moreover have "\<not> P (hd (dropWhile P xs))" using a hd_dropWhile[of P xs] by simp
  ultimately show "xs = takeWhile P xs @ g # post \<and> \<not> P g" using a by simp
next
  assume a: "xs = takeWhile P xs @ g # post \<and> \<not> P g"
  then have "dropWhile P xs = dropWhile P (takeWhile P xs @ g # post)" by simp
  also have "\<dots> = dropWhile P (g # post)"
    by (rule dropWhile_append2) (auto dest: set_takeWhileD)
  finally show "dropWhile P xs = g # post" using a by simp
qed

lemma match_link_iff:
  "match_link s = Some (tag, post) \<longleftrightarrow> s = tag @ post \<and> link_tag tag"
proof
  assume "match_link s = Some (tag, post)"
  then obtain r g where s: "s = link_open @ r"
    and d: "dropWhile (\<lambda>c. c \<noteq> CHR ''>'') r = g # post"
    and t: "tag = link_open @ takeWhile (\<lambda>c. c \<noteq> CHR ''>'') r @ [g]"
    by (auto simp: match_link_def strip_prefix_iff split: option.splits list.splits)
  from d have rg: "r = takeWhile (\<lambda>c. c \<noteq> CHR ''>'') r @ g # post \<and> \<not> g \<noteq> CHR ''>''"
    by (rule iffD1[OF dropWhile_eq_Cons_iff])
  then have r: "r = takeWhile (\<lambda>c. c \<noteq> CHR ''>'') r @ g # post" by (rule conjunct1)
  from rg have g: "g = CHR ''>''" by blast
  have "CHR ''>'' \<notin> set (takeWhile (\<lambda>c. c \<noteq> CHR ''>'') r)"
    by (auto dest: set_takeWhileD)
  with t g have "link_tag tag" by (auto simp: link_tag_def)
  moreover from s r t have "s = tag @ post" by simp
  ultimately show "s = tag @ post \<and> link_tag tag" by simp
next
  assume a: "s = tag @ post \<and> link_tag tag"
  then obtain attrs where t: "tag = link_open @ attrs @ ''>''" and n: "CHR ''>'' \<notin> set attrs"
    by (auto simp: link_tag_def)
  let ?P = "\<lambda>c. c \<noteq> CHR ''>''"
  have "dropWhile ?P (attrs @ CHR ''>'' # post) = CHR ''>'' # post"
    using n by (subst dropWhile_append2) auto
  moreover have "takeWhile ?P (attrs @ CHR ''>'' # post) = attrs"
    using n by (subst takeWhile_append2) auto
  moreover have "strip_prefix link_open s = Some (attrs @ CHR ''>'' # post)"
    using a t by (simp add: strip_prefix_iff)
  ultimately show "match_link s = Some (tag, post)"
    using t by (simp add: match_link_def)
qed

lemma match_script_iff:
  "match_script s = Some (tag, post) \<longleftrightarrow> s = tag @ post \<and> script_tag tag"
proof
  assume "match_script s = Some (tag, post)"
  then obtain r g r' where s: "s = script_open @ r"
    and d: "dropWhile (\<lambda>c. c \<noteq> CHR ''>'') r = g # r'"
    and c: "r' = script_close @ post"
    and t: "tag = script_open @ takeWhile (\<lambda>c. c \<noteq> CHR ''>'') r @ [g] @ script_close"
    by (auto simp: match_script_def strip_prefix_iff split: option.splits list.splits)
  from d have rg: "r = takeWhile (\<lambda>c. c \<noteq> CHR ''>'') r @ g # r' \<and> \<not> g \<noteq> CHR ''>''"
    by (rule iffD1[OF dropWhile_eq_Cons_iff])
  then have r: "r = takeWhile (\<lambda>c. c \<noteq> CHR ''>'') r @ g # r'" by (rule conjunct1)
  from rg have g: "g = CHR ''>''" by blast
  have "CHR ''>'' \<notin> set (takeWhile (\<lambda>c. c \<noteq> CHR ''>'') r)"
    by (auto dest: set_takeWhileD)
  with t g have "script_tag tag" by (auto simp: script_tag_def)
  moreover from s r t c have "s = tag @ post" by simp
  ultimately show "s = tag @ post \<and> script_tag tag" by simp
next
  assume a: "s = tag @ post \<and> script_tag tag"
  then obtain attrs where t: "tag = script_open @ attrs @ ''>'' @ script_close"
    and n: "CHR ''>'' \<notin> set attrs"
    by (auto simp: script_tag_def)
  let ?P = "\<lambda>c. c \<noteq> CHR ''>''"
  let ?r = "attrs @ CHR ''>'' # script_close @ post"
  have "dropWhile ?P ?r = CHR ''>'' # script_close @ post"
    using n by (subst dropWhile_append2) auto
  moreover have "takeWhile ?P ?r = attrs"
    using n by (subst takeWhile_append2) auto
  moreover have "strip_prefix script_open s = Some ?r"
    using a t by (simp add: strip_prefix_iff)
  moreover have "strip_prefix script_close (script_close @ post) = Some post"
    by (simp add: strip_prefix_iff)
  ultimately show "match_script s = Some (tag, post)"
    using t by (simp add: match_script_def)
qed

lemma occurs_at_iff:
  assumes "\<And>s tag post. m s = Some (tag, post) \<longleftrightarrow> s = tag @ post \<and> P tag"
  shows "occurs_at P s i \<longleftrightarrow> m (drop i s) \<noteq> None"
proof
  assume "occurs_at P s i"
  then obtain k where "P (take k (drop i s))" by (auto simp: occurs_at_def)
  moreover have "drop i s = take k (drop i s) @ drop k (drop i s)"
    by (simp only: append_take_drop_id)
  ultimately have "m (drop i s) = Some (take k (drop i s), drop k (drop i s))"
    by (simp only: assms)
  then show "m (drop i s) \<noteq> None" by simp
next
  assume "m (drop i s) \<noteq> None"
  then obtain tag post where "m (drop i s) = Some (tag, post)" by auto
  then have "drop i s = tag @ post" "P tag" by (simp_all add: assms)
  then have "P (take (length tag) (drop i s))" by simp
  then show "occurs_at P s i" unfolding occurs_at_def ..
qed

lemma replace_first_cases:
  "(\<forall>i. m (drop i s) = None) \<and> replace_first m f s = Some s \<or>
   (\<exists>pre rest tag post. s = pre @ rest \<and> m rest = Some (tag, post) \<and>
      (\<forall>i<length pre. m (drop i s) = None) \<and>
      replace_first m f s = map_option (\<lambda>r. pre @ r @ post) (f tag))"
proof (induction s)
  case Nil
  show ?case
  proof (cases "m []")
    case None
    then show ?thesis by simp
  next
    case (Some a)
    then show ?thesis by (cases a) auto
  qed
next
  case (Cons c cs)
  show ?case
  proof (cases "m (c # cs)")
    case (Some a)
    then obtain tag post where "m (c # cs) = Some (tag, post)" by (cases a) auto
    then have "c # cs = [] @ (c # cs) \<and> m (c # cs) = Some (tag, post) \<and>
      (\<forall>i<length ([]::string). m (drop i (c # cs)) = None) \<and>
      replace_first m f (c # cs) = map_option (\<lambda>r. [] @ r @ post) (f tag)"
      by simp
    then show ?thesis by blast
  next
    case None
    from Cons.IH show ?thesis
    proof
      assume a: "(\<forall>i. m (drop i cs) = None) \<and> replace_first m f cs = Some cs"
      have "m (drop i (c # cs)) = None" for i
        using a None by (cases i) auto
      with a None show ?thesis by simp
    next
      assume "\<exists>pre rest tag post. cs = pre @ rest \<and> m rest = Some (tag, post) \<and>
        (\<forall>i<length pre. m (drop i cs) = None) \<and>
        replace_first m f cs = map_option (\<lambda>r. pre @ r @ post) (f tag)"
      then obtain pre rest tag post where a: "cs = pre @ rest" "m rest = Some (tag, post)"
        "\<forall>i<length pre. m (drop i cs) = None"
        "replace_first m f cs = map_option (\<lambda>r. pre @ r @ post) (f tag)"
        by blast
      have "m (drop i (c # cs)) = None" if "i < length (c # pre)" for i
        using a(3) None that by (cases i) auto
      moreover have "replace_first m f (c # cs) = map_option (\<lambda>r. (c # pre) @ r @ post) (f tag)"
        using a(4) None by (simp add: option.map_comp comp_def)
      ultimately have "c # cs = (c # pre) @ rest \<and> m rest = Some (tag, post) \<and>
        (\<forall>i<length (c # pre). m (drop i (c # cs)) = None) \<and>
        replace_first m f (c # cs) = map_option (\<lambda>r. (c # pre) @ r @ post) (f tag)"
        using a(1,2) by simp
      then show ?thesis by blast
    qed
  qed
qed

lemma replace_first_hit:
  assumes "\<And>i. i < length pre \<Longrightarrow> m (drop i (pre @ rest)) = None"
    and "m rest = Some (tag, post)"
  shows "replace_first m f (pre @ rest) = map_option (\<lambda>r. pre @ r @ post) (f tag)"
  using assms
proof (induction pre)
  case Nil
  then show ?case by (cases rest) simp_all
next
  case (Cons c pre)
  have "m (c # pre @ rest) = None" using Cons.prems(1)[of 0] by simp
  moreover have "replace_first m f (pre @ rest) = map_option (\<lambda>r. pre @ r @ post) (f tag)"
  proof (rule Cons.IH)
    fix i assume "i < length pre"
    then show "m (drop i (pre @ rest)) = None" using Cons.prems(1)[of "Suc i"] by simp
  qed (rule Cons.prems(2))
  ultimately show ?case by (simp add: option.map_comp comp_def)
qed

lemma replace_first_spec:
  assumes m: "\<And>s tag post. m s = Some (tag, post) \<longleftrightarrow> s = tag @ post \<and> P tag"
  shows "\<exists>u. replace_first m (\<lambda>s. Some r) t = Some u \<and> spec_replace_first P r t u"
proof -
  have occ: "occurs_at P s i \<longleftrightarrow> m (drop i s) \<noteq> None" for s i
    by (rule occurs_at_iff) (rule m)
  from replace_first_cases[of m t "\<lambda>s. Some r"] show ?thesis
  proof
    assume "(\<forall>i. m (drop i t) = None) \<and> replace_first m (\<lambda>s. Some r) t = Some t"
    then show ?thesis by (simp add: spec_replace_first_def occ)
  next
    assume "\<exists>pre rest tag post. t = pre @ rest \<and> m rest = Some (tag, post) \<and>
      (\<forall>i<length pre. m (drop i t) = None) \<and>
      replace_first m (\<lambda>s. Some r) t = map_option (\<lambda>r. pre @ r @ post) (Some r)"
    then obtain pre rest tag post where a: "t = pre @ rest" "m rest = Some (tag, post)"
      "\<forall>i<length pre. m (drop i t) = None"
      "replace_first m (\<lambda>s. Some r) t = Some (pre @ r @ post)"
      by auto
    from a(2) have "rest = tag @ post" "P tag" by (simp_all add: m)
    with a have "t = pre @ tag @ post \<and> P tag \<and> (\<forall>i<length pre. \<not> occurs_at P t i)"
      by (simp add: occ)
    with a(4) show ?thesis unfolding spec_replace_first_def by blast
  qed
qed

lemma inline_css_spec:
  "\<exists>u. inline_css (Some style) t = Some u \<and> spec_replace_first link_tag (style_element style) t u"
  unfolding inline_css_def option.map
  by (rule replace_first_spec) (rule match_link_iff)

lemma inline_js_spec:
  "\<exists>w. inline_js (Some script) u = Some w \<and> spec_replace_first script_tag (script_element script) u w"
  unfolding inline_js_def option.map
  by (rule replace_first_spec) (rule match_script_iff)

lemma occurs_link: "occurs_at link_tag s i \<longleftrightarrow> match_link (drop i s) \<noteq> None"
  by (rule occurs_at_iff) (rule match_link_iff)

lemma occurs_script: "occurs_at script_tag s i \<longleftrightarrow> match_script (drop i s) \<noteq> None"
  by (rule occurs_at_iff) (rule match_script_iff)








lemma link_tag_match: "link_tag tag \<longleftrightarrow> match_link tag = Some (tag, [])"
  using match_link_iff[of tag tag "[]"] by simp

lemma script_tag_match: "script_tag tag \<longleftrightarrow> match_script tag = Some (tag, [])"
  using match_script_iff[of tag tag "[]"] by simp

lemma inline_css_first:
  assumes "link_tag L" and "\<forall>i<length pre. \<not> occurs_at link_tag (pre @ L @ post) i"
  shows "inline_css (Some style) (pre @ L @ post) = Some (pre @ style_element style @ post)"
proof -
  have "match_link (L @ post) = Some (L, post)" using assms(1) by (simp add: match_link_iff)
  moreover have "match_link (drop i (pre @ L @ post)) = None" if "i < length pre" for i
    using assms(2) that by (simp only: occurs_link) blast
  ultimately show ?thesis
    unfolding inline_css_def by (simp add: replace_first_hit)
qed

lemma inline_js_first:
  assumes "script_tag S" and "\<forall>i<length pre. \<not> occurs_at script_tag (pre @ S @ post) i"
  shows "inline_js (Some script) (pre @ S @ post) = Some (pre @ script_element script @ post)"
proof -
  have "match_script (S @ post) = Some (S, post)" using assms(1) by (simp add: match_script_iff)
  moreover have "match_script (drop i (pre @ S @ post)) = None" if "i < length pre" for i
    using assms(2) that by (simp only: occurs_script) blast
  ultimately show ?thesis
    unfolding inline_js_def by (simp add: replace_first_hit)
qed

lemma html_contents_steps:
  "\<exists>u w. inline_css (Some (utf8 T style)) (utf8 T t) = Some u \<and>
     inline_js (Some (utf8 T script)) (utf8 T u) = Some w \<and>
     html_contents (Some style) (Some script) T t = htmlmin T w \<and>
     spec_replace_first link_tag (style_element (utf8 T style)) (utf8 T t) u \<and>
     spec_replace_first script_tag (script_element (utf8 T script)) (utf8 T u) w"
proof -
  obtain u where u: "inline_css (Some (utf8 T style)) (utf8 T t) = Some u"
    "spec_replace_first link_tag (style_element (utf8 T style)) (utf8 T t) u"
    using inline_css_spec by blast
  obtain w where w: "inline_js (Some (utf8 T script)) (utf8 T u) = Some w"
    "spec_replace_first script_tag (script_element (utf8 T script)) (utf8 T u) w"
    using inline_js_spec by blast
  from u w show ?thesis by (auto simp: html_contents_def)
qed

lemma html_pipeline_eq:
  "html_pipeline cssPath jsPath T fs =
     (if \<forall>v\<in>set (src_glob ''src/html'' ''.html'' fs).
           html_contents (readFileSync fs cssPath) (readFileSync fs jsPath) T (contents v) \<noteq> None
      then Some (dest_write ''../templates'' (dest_pass ''dist'' (html_out cssPath jsPath T fs))
                  (dest_write ''dist'' (html_out cssPath jsPath T fs) fs))
      else None)"
proof -
  let ?G = "src_glob ''src/html'' ''.html'' fs"
  let ?style = "map_option (utf8 T) (readFileSync fs cssPath)"
  let ?script = "map_option (utf8 T) (readFileSync fs jsPath)"
  have "Option.bind
          (Option.bind
             (map_contents_opt (\<lambda>c. inline_css ?style (utf8 T c)) ?G)
             (map_contents_opt (\<lambda>c. inline_js ?script (utf8 T c))))
          (map_contents_opt (htmlmin T)) =
        map_contents_opt (html_contents (readFileSync fs cssPath) (readFileSync fs jsPath) T) ?G"
    by (simp add: map_contents_opt_bind html_contents_def[abs_def])
  then show ?thesis
    by (simp add: html_pipeline_def Let_def map_contents_opt_eq html_out_def)
qed

subsection \<open>The \<^verbatim>\<open>html\<close> pipeline\<close>

lemma not_templates_dist: "\<not> lies_in ''../templates'' (''dist/'' @ n)"
  by (simp add: lies_in_def)

lemma html_pipeline_template:
  assumes run: "html_pipeline cssPath jsPath T fs = Some fs'"
    and n: "glob_name ''.html'' n" and t: "map_of fs (''src/html/'' @ n) = Some t"
  shows "\<exists>out. html_contents (readFileSync fs cssPath) (readFileSync fs jsPath) T (strip_bom t) = Some out \<and>
           map_of fs' (''dist/'' @ n) = Some out \<and> map_of fs' (''../templates/'' @ n) = Some out"
proof -
  let ?G = "src_glob ''src/html'' ''.html'' fs"
  let ?h = "html_contents (readFileSync fs cssPath) (readFileSync fs jsPath) T"
  let ?O = "html_out cssPath jsPath T fs"
  let ?v = "\<lparr>base = ''src/html'', relative = n, contents = strip_bom t\<rparr>"
  from run have ok: "\<forall>v\<in>set ?G. ?h (contents v) \<noteq> None"
    and fs': "fs' = dest_write ''../templates'' (dest_pass ''dist'' ?O) (dest_write ''dist'' ?O fs)"
    by (auto simp: html_pipeline_eq split: if_splits)
  have v: "?v \<in> set ?G" using n t by (simp add: src_glob_iff)
  with ok obtain out where out: "?h (strip_bom t) = Some out" by fastforce
  let ?w = "?v\<lparr>contents := out\<rparr>"
  have w: "?w \<in> set ?O"
    unfolding html_out_def in_map_contents using v out by force
  have d: "distinct (map relative ?O)"
    by (simp add: html_out_def relative_map_contents src_glob_distinct)
  have "map_of (dest_write ''dist'' ?O fs) (dest_path ''dist'' ?w) = Some (contents ?w)"
    using d w by (rule dest_write_hit)
  then have 1: "map_of fs' (''dist/'' @ n) = Some out"
    unfolding fs' using not_templates_dist[of n]
    by (simp add: dest_write_frame dest_path_def)
  let ?w' = "?w\<lparr>base := ''dist''\<rparr>"
  have "?w' \<in> set (dest_pass ''dist'' ?O)"
    unfolding dest_pass_def set_map using w by (rule imageI)
  moreover have "distinct (map relative (dest_pass ''dist'' ?O))"
    using d by (simp add: relative_dest_pass)
  ultimately have "map_of fs' (dest_path ''../templates'' ?w') = Some (contents ?w')"
    unfolding fs' by (intro dest_write_hit)
  then have 2: "map_of fs' (''../templates/'' @ n) = Some out"
    by (simp add: dest_path_def)
  from out 1 2 show ?thesis by simp
qed

lemma html_pipeline_frame:
  assumes run: "html_pipeline cssPath jsPath T fs = Some fs'"
    and p: "\<And>n. glob_name ''.html'' n \<Longrightarrow> map_of fs (''src/html/'' @ n) \<noteq> None \<Longrightarrow>
              p \<noteq> ''dist/'' @ n \<and> p \<noteq> ''../templates/'' @ n"
  shows "map_of fs' p = map_of fs p"
proof -
  let ?G = "src_glob ''src/html'' ''.html'' fs"
  let ?O = "html_out cssPath jsPath T fs"
  from run have fs': "fs' = dest_write ''../templates'' (dest_pass ''dist'' ?O) (dest_write ''dist'' ?O fs)"
    by (auto simp: html_pipeline_eq split: if_splits)
  have rel: "glob_name ''.html'' (relative v) \<and> map_of fs (''src/html/'' @ relative v) \<noteq> None"
    if "v \<in> set ?O" for v
    using that by (auto simp: html_out_def in_map_contents src_glob_iff)
  have "map_of (dest_write ''dist'' ?O fs) p = map_of fs p"
  proof (rule dest_write_other)
    fix v assume "v \<in> set ?O"
    from p[OF rel[OF this, THEN conjunct1] rel[OF this, THEN conjunct2]]
    show "dest_path ''dist'' v \<noteq> p" by (auto simp: dest_path_def)
  qed
  moreover have "map_of fs' p = map_of (dest_write ''dist'' ?O fs) p"
    unfolding fs'
  proof (rule dest_write_other)
    fix v assume "v \<in> set (dest_pass ''dist'' ?O)"
    then obtain u where u: "u \<in> set ?O" "relative v = relative u"
      by (auto simp: dest_pass_def)
    from p[OF rel[OF u(1), THEN conjunct1] rel[OF u(1), THEN conjunct2]] u(2)
    show "dest_path ''../templates'' v \<noteq> p" by (auto simp: dest_path_def)
  qed
  ultimately show ?thesis by simp
qed

text \<open>
  With both bundles present the task fails exactly when html-minifier fails on a
  template.
\<close>

lemma html_pipeline_None:
  assumes "map_of fs cssPath = Some style" and "map_of fs jsPath = Some script"
  shows "html_pipeline cssPath jsPath T fs = None \<longleftrightarrow>
           (\<exists>n t. glob_name ''.html'' n \<and> map_of fs (''src/html/'' @ n) = Some t \<and>
                  html_contents (Some style) (Some script) T (strip_bom t) = None)"
proof -
  let ?G = "src_glob ''src/html'' ''.html'' fs"
  let ?h = "html_contents (Some style) (Some script) T"
  have "html_pipeline cssPath jsPath T fs = None \<longleftrightarrow> (\<exists>v\<in>set ?G. ?h (contents v) = None)"
    using assms by (simp add: html_pipeline_eq readFileSync_def)
  also have "\<dots> \<longleftrightarrow> (\<exists>n t. glob_name ''.html'' n \<and> map_of fs (''src/html/'' @ n) = Some t \<and>
                  ?h (strip_bom t) = None)"
  proof
    assume "\<exists>v\<in>set ?G. ?h (contents v) = None"
    then obtain v where "v \<in> set ?G" "?h (contents v) = None" by blast
    then show "\<exists>n t. glob_name ''.html'' n \<and> map_of fs (''src/html/'' @ n) = Some t \<and> ?h (strip_bom t) = None"
      by (auto simp: src_glob_iff)
  next
    assume "\<exists>n t. glob_name ''.html'' n \<and> map_of fs (''src/html/'' @ n) = Some t \<and> ?h (strip_bom t) = None"
    then obtain n t where n: "glob_name ''.html'' n" "map_of fs (''src/html/'' @ n) = Some t"
      "?h (strip_bom t) = None"
      by blast
    from src_glob_member[of "''.html''" n fs "''src/html''" t] n(1,2)
    have "\<lparr>base = ''src/html'', relative = n, contents = strip_bom t\<rparr> \<in> set ?G" by simp
    with n(3) show "\<exists>v\<in>set ?G. ?h (contents v) = None" by force
  qed
  finally show ?thesis .
qed

lemma html_pipeline_total:
  assumes "map_of fs cssPath = Some style" and "map_of fs jsPath = Some script"
    and "\<forall>x. htmlmin T x \<noteq> None"
  shows "html_pipeline cssPath jsPath T fs \<noteq> None"
proof -
  have "html_contents (Some style) (Some script) T t \<noteq> None" for t
    using html_contents_steps[of T style t script] assms(3) by auto
  then show ?thesis
    unfolding html_pipeline_None[OF assms(1,2)] by blast
qed

subsection \<open>The claims about the \<^verbatim>\<open>js\<close> and \<^verbatim>\<open>html\<close> tasks\<close>

lemma css_frame:
  "css T fs = Some fs' \<Longrightarrow> \<not> lies_in ''dist'' p \<Longrightarrow> map_of fs' p = map_of fs p"
  by (auto simp: css_def Let_def dest_write_frame)

lemma styles_frame:
  "styles T fs = Some fs' \<Longrightarrow> \<not> lies_in ''dist'' p \<Longrightarrow> map_of fs' p = map_of fs p"
  by (auto simp: styles_def dest_write_frame)

lemma js_pipeline_frame:
  "js_pipeline name T fs = Some fs' \<Longrightarrow> \<not> lies_in ''dist'' p \<Longrightarrow> map_of fs' p = map_of fs p"
  by (auto simp: js_pipeline_def dest_write_frame)

text \<open>
  C4: the script pipeline concatenates the module loader (\<^verbatim>\<open>require.js\<close>) and then the
  application script (\<^verbatim>\<open>src/js/main.js\<close>), each as \<^verbatim>\<open>gulp.src\<close> delivers it (without a byte
  order mark at its start), into one file, the two joined by a newline, and runs Babel and
  then UglifyJS on it. When both succeed the task completes, the result is in \<^verbatim>\<open>dist\<close> (as
  \<^verbatim>\<open>main.js\<close>, in the earlier revision as \<^verbatim>\<open>bundle.js\<close>) and no other path has changed; when
  one of them fails the task fails. \<^verbatim>\<open>dist\<close> is also the only directory in which the style
  pipeline (\<^verbatim>\<open>css\<close>, earlier \<^verbatim>\<open>styles\<close>) changes anything.
\<close>

theorem js_concatenates_loader_and_script:
  assumes "map_of fs requireJsPath = Some loader" and "map_of fs ''src/js/main.js'' = Some app"
  shows "(\<forall>x out. babel T (strip_bom loader @ ''\<newline>'' @ strip_bom app) = Some x \<and> uglify T x = Some out \<longrightarrow>
            (\<exists>fs'. js T fs = Some fs' \<and> map_of fs' = (map_of fs)(''dist/main.js'' \<mapsto> out)) \<and>
            (\<exists>fs'. js_v0 T fs = Some fs' \<and> map_of fs' = (map_of fs)(''dist/bundle.js'' \<mapsto> out))) \<and>
         (babel T (strip_bom loader @ ''\<newline>'' @ strip_bom app) = None \<or>
          (\<exists>x. babel T (strip_bom loader @ ''\<newline>'' @ strip_bom app) = Some x \<and> uglify T x = None) \<longrightarrow>
            js T fs = None \<and> js_v0 T fs = None) \<and>
         (\<forall>fs' p. (css T fs = Some fs' \<or> styles T fs = Some fs') \<and> map_of fs' p \<noteq> map_of fs p \<longrightarrow>
            lies_in ''dist'' p)"
proof -
  have r: "js_pipeline name T fs =
           map_option (\<lambda>out. AList.update (''dist/'' @ name) out fs)
             (Option.bind (babel T (strip_bom loader @ ''\<newline>'' @ strip_bom app)) (uglify T))" for name
    using assms by (rule js_pipeline_result)
  have 1: "(\<exists>fs'. js T fs = Some fs' \<and> map_of fs' = (map_of fs)(''dist/main.js'' \<mapsto> out)) \<and>
           (\<exists>fs'. js_v0 T fs = Some fs' \<and> map_of fs' = (map_of fs)(''dist/bundle.js'' \<mapsto> out))"
    if "babel T (strip_bom loader @ ''\<newline>'' @ strip_bom app) = Some x" "uglify T x = Some out" for x out
    using that by (simp add: js_def js_v0_def r update_conv')
  have 2: "js T fs = None \<and> js_v0 T fs = None"
    if "babel T (strip_bom loader @ ''\<newline>'' @ strip_bom app) = None \<or>
        (\<exists>x. babel T (strip_bom loader @ ''\<newline>'' @ strip_bom app) = Some x \<and> uglify T x = None)"
    using that by (auto simp: js_def js_v0_def r)
  have 3: "lies_in ''dist'' p"
    if "css T fs = Some fs' \<or> styles T fs = Some fs'" "map_of fs' p \<noteq> map_of fs p" for fs' p
    using that css_frame[of T fs fs' p] styles_frame[of T fs fs' p] by blast
  from 1 2 3 show ?thesis by blast
qed

theorem js_concatenates_loader_and_script_witness:
  "map_of demo_site requireJsPath = Some ''R'' \<and> map_of demo_site ''src/js/main.js'' = Some ''M'' \<and>
   (\<exists>fs'. js plain_tools demo_site = Some fs' \<and> map_of fs' ''dist/main.js'' = Some ''R\<newline>M'') \<and>
   (\<exists>fs'. js_v0 plain_tools demo_site = Some fs' \<and> map_of fs' ''dist/bundle.js'' = Some ''R\<newline>M'') \<and>
   map_of marked_site requireJsPath = Some (byte_order_mark @ ''R'') \<and>
   map_of marked_site ''src/js/main.js'' = Some (byte_order_mark @ ''M'') \<and>
   (\<exists>fs'. js plain_tools marked_site = Some fs' \<and> map_of fs' ''dist/main.js'' = Some ''R\<newline>M'')"
proof -
  have s: "map_of demo_site requireJsPath = Some ''R''" "map_of demo_site ''src/js/main.js'' = Some ''M''"
    by (simp_all add: demo_site_def requireJsPath_def)
  have m: "map_of marked_site requireJsPath = Some (byte_order_mark @ ''R'')"
    "map_of marked_site ''src/js/main.js'' = Some (byte_order_mark @ ''M'')"
    by (simp_all add: marked_site_def requireJsPath_def)
  have bm: "babel plain_tools (strip_bom (byte_order_mark @ ''R'') @ ''\<newline>'' @ strip_bom (byte_order_mark @ ''M'')) =
              Some ''R\<newline>M'' \<and>
           uglify plain_tools ''R\<newline>M'' = Some ''R\<newline>M''"
    by (simp add: plain_tools_def strip_bom_def byte_order_mark_def)
  from js_concatenates_loader_and_script[OF m, of plain_tools, THEN conjunct1, rule_format, OF bm]
  have "\<exists>fs'. js plain_tools marked_site = Some fs' \<and>
          map_of fs' = (map_of marked_site)(''dist/main.js'' \<mapsto> ''R\<newline>M'')"
    by (rule conjunct1)
  then have 3: "\<exists>fs'. js plain_tools marked_site = Some fs' \<and> map_of fs' ''dist/main.js'' = Some ''R\<newline>M''"
    by auto
  have b: "babel plain_tools (strip_bom ''R'' @ ''\<newline>'' @ strip_bom ''M'') = Some ''R\<newline>M'' \<and>
           uglify plain_tools ''R\<newline>M'' = Some ''R\<newline>M''"
    by (simp add: plain_tools_def strip_bom_def byte_order_mark_def)
  from js_concatenates_loader_and_script[OF s, of plain_tools, THEN conjunct1, rule_format, OF b]
  have "(\<exists>fs'. js plain_tools demo_site = Some fs' \<and> map_of fs' = (map_of demo_site)(''dist/main.js'' \<mapsto> ''R\<newline>M'')) \<and>
        (\<exists>fs'. js_v0 plain_tools demo_site = Some fs' \<and> map_of fs' = (map_of demo_site)(''dist/bundle.js'' \<mapsto> ''R\<newline>M''))" .
  then have "(\<exists>fs'. js plain_tools demo_site = Some fs' \<and> map_of fs' ''dist/main.js'' = Some ''R\<newline>M'') \<and>
        (\<exists>fs'. js_v0 plain_tools demo_site = Some fs' \<and> map_of fs' ''dist/bundle.js'' = Some ''R\<newline>M'')"
    by auto
  with s m 3 show ?thesis by simp
qed

text \<open>
  C2: the \<^verbatim>\<open>html\<close> task either fails, and then there is a template on which one of its
  three plugins fails (a callback that finds no bundle, or html-minifier), or it
  completes, and then for every template of \<^verbatim>\<open>src/html\<close> the same contents, the template
  with the bundles inlined and then minified, are under the name of the template in
  \<^verbatim>\<open>dist\<close> and in \<^verbatim>\<open>../templates\<close>, and these two paths per template are the only paths
  whose contents the task has changed.
\<close>

theorem html_two_destinations:
  assumes "task = html \<and> cssPath = ''dist/main.css'' \<and> jsPath = ''dist/main.js'' \<or>
           task = html_v0 \<and> cssPath = ''dist/bundle.css'' \<and> jsPath = ''dist/bundle.js''"
  shows "case task T fs of
           None \<Rightarrow>
             (\<exists>n t. glob_name ''.html'' n \<and> map_of fs (''src/html/'' @ n) = Some t \<and>
                html_contents (readFileSync fs cssPath) (readFileSync fs jsPath) T (strip_bom t) = None)
         | Some fs' \<Rightarrow>
             (\<forall>n t. glob_name ''.html'' n \<and> map_of fs (''src/html/'' @ n) = Some t \<longrightarrow>
                (\<exists>u w out.
                   inline_css (map_option (utf8 T) (readFileSync fs cssPath)) (utf8 T (strip_bom t)) = Some u \<and>
                   inline_js (map_option (utf8 T) (readFileSync fs jsPath)) (utf8 T u) = Some w \<and>
                   htmlmin T w = Some out \<and>
                   map_of fs' (''dist/'' @ n) = Some out \<and>
                   map_of fs' (''../templates/'' @ n) = Some out)) \<and>
             (\<forall>p. map_of fs' p \<noteq> map_of fs p \<longrightarrow>
                (\<exists>n. glob_name ''.html'' n \<and> map_of fs (''src/html/'' @ n) \<noteq> None \<and>
                     (p = ''dist/'' @ n \<or> p = ''../templates/'' @ n)))"
proof (cases "html_pipeline cssPath jsPath T fs")
  case None
  let ?G = "src_glob ''src/html'' ''.html'' fs"
  from assms have task: "task = html_pipeline cssPath jsPath"
    by (auto simp: html_def html_v0_def)
  from None obtain v where "v \<in> set ?G"
    "html_contents (readFileSync fs cssPath) (readFileSync fs jsPath) T (contents v) = None"
    by (auto simp: html_pipeline_eq split: if_splits)
  then have "\<exists>n t. glob_name ''.html'' n \<and> map_of fs (''src/html/'' @ n) = Some t \<and>
              html_contents (readFileSync fs cssPath) (readFileSync fs jsPath) T (strip_bom t) = None"
    by (auto simp: src_glob_iff)
  with None task show ?thesis by simp
next
  case (Some fs')
  from assms have task: "task = html_pipeline cssPath jsPath"
    by (auto simp: html_def html_v0_def)
  have "\<exists>u w out.
          inline_css (map_option (utf8 T) (readFileSync fs cssPath)) (utf8 T (strip_bom t)) = Some u \<and>
          inline_js (map_option (utf8 T) (readFileSync fs jsPath)) (utf8 T u) = Some w \<and>
          htmlmin T w = Some out \<and>
          map_of fs' (''dist/'' @ n) = Some out \<and>
          map_of fs' (''../templates/'' @ n) = Some out"
    if "glob_name ''.html'' n" "map_of fs (''src/html/'' @ n) = Some t" for n t
    using html_pipeline_template[OF Some that]
    by (auto simp: html_contents_def split: Option.bind_splits)
  moreover have "\<exists>n. glob_name ''.html'' n \<and> map_of fs (''src/html/'' @ n) \<noteq> None \<and>
                 (p = ''dist/'' @ n \<or> p = ''../templates/'' @ n)"
    if "map_of fs' p \<noteq> map_of fs p" for p
    using html_pipeline_frame[OF Some, of p] that by blast
  ultimately show ?thesis unfolding task Some option.case by blast
qed

theorem html_two_destinations_witness:
  "(\<exists>fs'. html plain_tools demo_site = Some fs' \<and>
          map_of fs' ''dist/index.html'' = Some demo_html \<and>
          map_of fs' ''../templates/index.html'' = Some demo_html) \<and>
   (\<exists>fs'. html_v0 plain_tools demo_site = Some fs' \<and>
          map_of fs' ''dist/index.html'' = Some demo_html \<and>
          map_of fs' ''../templates/index.html'' = Some demo_html)"
proof -
  let ?fs' = "demo_site @ [(''dist/index.html'', demo_html), (''../templates/index.html'', demo_html)]"
  have run: "html plain_tools demo_site = Some ?fs'" "html_v0 plain_tools demo_site = Some ?fs'"
    by code_simp+
  have g: "glob_name ''.html'' ''index.html''"
    by (simp add: glob_name_def ends_with_def)
  obtain tpl where tpl: "map_of demo_site (''src/html/'' @ ''index.html'') = Some tpl"
    by (simp add: demo_site_def)
  have d: "map_of ?fs' (''dist/'' @ ''index.html'') = Some demo_html"
    by (simp add: demo_site_def)
  have rev: "html = html \<and> ''dist/main.css'' = ''dist/main.css'' \<and> ''dist/main.js'' = ''dist/main.js'' \<or>
       html = html_v0 \<and> ''dist/main.css'' = ''dist/bundle.css'' \<and> ''dist/main.js'' = ''dist/bundle.js''"
    by simp
  have rev0: "html_v0 = html \<and> ''dist/bundle.css'' = ''dist/main.css'' \<and> ''dist/bundle.js'' = ''dist/main.js'' \<or>
       html_v0 = html_v0 \<and> ''dist/bundle.css'' = ''dist/bundle.css'' \<and> ''dist/bundle.js'' = ''dist/bundle.js''"
    by simp
  note th = html_two_destinations[OF rev, where T = plain_tools and fs = demo_site, unfolded run(1) option.case]
  note th0 = html_two_destinations[OF rev0, where T = plain_tools and fs = demo_site, unfolded run(2) option.case]
  from th[THEN conjunct1, rule_format, OF conjI[OF g tpl]]
  have "\<exists>out. map_of ?fs' (''dist/'' @ ''index.html'') = Some out \<and>
          map_of ?fs' (''../templates/'' @ ''index.html'') = Some out"
    by blast
  with d have 1: "map_of ?fs' ''../templates/index.html'' = Some demo_html" by auto
  from th0[THEN conjunct1, rule_format, OF conjI[OF g tpl]]
  have "\<exists>out. map_of ?fs' (''dist/'' @ ''index.html'') = Some out \<and>
          map_of ?fs' (''../templates/'' @ ''index.html'') = Some out"
    by blast
  with d have 2: "map_of ?fs' ''../templates/index.html'' = Some demo_html" by auto
  from run 1 2 d show ?thesis by simp
qed



text \<open>
  C9: each of the two substitutions replaces the first placeholder tag only. When \<open>L\<close> is
  the first \<^verbatim>\<open>link\<close> placeholder of a text, everything before it and everything after it,
  later placeholders included, comes out of the substitution unchanged, and what is put in
  its place is the \<^verbatim>\<open><style>\<close> element whatever the attributes of \<open>L\<close>; likewise for the
  \<^verbatim>\<open>script\<close> placeholder.
\<close>

theorem only_first_placeholder_replaced:
  assumes "link_tag L" and "\<forall>i<length pre. \<not> occurs_at link_tag (pre @ L @ post) i"
    and "script_tag S" and "\<forall>i<length pre'. \<not> occurs_at script_tag (pre' @ S @ post') i"
  shows "inline_css (Some style) (pre @ L @ post) = Some (pre @ style_element style @ post) \<and>
         inline_js (Some script) (pre' @ S @ post') = Some (pre' @ script_element script @ post')"
  using inline_css_first[OF assms(1,2)] inline_js_first[OF assms(3,4)] by simp

theorem only_first_placeholder_replaced_witness:
  \<open>link_tag ''<link href="bundle.css" rel="stylesheet">'' \<and>
   script_tag ''<script src="bundle.js" defer></script>'' \<and>
   inline_css (Some ''a{}'')
       (''<p>'' @ ''<link href="bundle.css" rel="stylesheet">'' @ ''<p><link href="bundle.css">'') =
     Some (''<p>'' @ style_element ''a{}'' @ ''<p><link href="bundle.css">'') \<and>
   inline_js (Some ''f()'')
       (''<p>'' @ ''<script src="bundle.js" defer></script>'' @ ''<script src="bundle.js"></script>'') =
     Some (''<p>'' @ script_element ''f()'' @ ''<script src="bundle.js"></script>'')\<close>
proof -
  have l: \<open>link_tag ''<link href="bundle.css" rel="stylesheet">''\<close>
    by (simp add: link_tag_match match_link_def link_open_def)
  have s: \<open>script_tag ''<script src="bundle.js" defer></script>''\<close>
    by (simp add: script_tag_match match_script_def script_open_def script_close_def)
  have nl: \<open>\<forall>i<length ''<p>''. \<not> occurs_at link_tag
       (''<p>'' @ ''<link href="bundle.css" rel="stylesheet">'' @ ''<p><link href="bundle.css">'') i\<close>
    by (simp add: occurs_link match_link_def link_open_def less_Suc_eq)
  have ns: \<open>\<forall>i<length ''<p>''. \<not> occurs_at script_tag
       (''<p>'' @ ''<script src="bundle.js" defer></script>'' @ ''<script src="bundle.js"></script>'') i\<close>
    by (simp add: occurs_script match_script_def script_open_def less_Suc_eq)
  from only_first_placeholder_replaced[OF l nl s ns, of "''a{}''" "''f()''"] l nl s ns
  show ?thesis by blast
qed

subsection \<open>The style tasks\<close>

lemma ends_with_iff: "ends_with ext n \<longleftrightarrow> (\<exists>stem. n = stem @ ext)"
proof -
  have "ends_with ext n \<longleftrightarrow> (\<exists>r. rev n = rev ext @ r)"
    by (auto simp: ends_with_def strip_prefix_iff)
  also have "\<dots> \<longleftrightarrow> (\<exists>stem. n = stem @ ext)"
  proof
    assume "\<exists>r. rev n = rev ext @ r"
    then obtain r where "rev n = rev ext @ r" ..
    then have "rev (rev n) = rev (rev ext @ r)" by simp
    then have "n = rev r @ ext" by simp
    then show "\<exists>stem. n = stem @ ext" ..
  next
    assume "\<exists>stem. n = stem @ ext"
    then obtain stem where "n = stem @ ext" ..
    then have "rev n = rev ext @ rev stem" by simp
    then show "\<exists>r. rev n = rev ext @ r" ..
  qed
  finally show ?thesis .
qed

lemma replace_ext_scss:
  assumes "glob_name ''.scss'' n"
  shows "\<exists>stem. n = stem @ ''.scss'' \<and> replace_ext ''.css'' n = stem @ ''.css''"
proof -
  from assms obtain stem where n: "n = stem @ ''.scss''"
    by (auto simp: glob_name_def ends_with_iff)
  from assms n have "stem \<noteq> []"
    by (auto simp: glob_name_def)
  then have "CHR ''.'' \<in> set (drop 1 n)"
    using n by (cases stem) auto
  then have "extname n = ''.scss''"
    using n by (simp add: extname_def)
  then have "replace_ext ''.css'' n = stem @ ''.css''"
    using n by (simp add: replace_ext_def)
  with n show ?thesis by blast
qed

lemma replace_ext_scss_inj:
  assumes "glob_name ''.scss'' n" and "glob_name ''.scss'' n'"
    and "replace_ext ''.css'' n = replace_ext ''.css'' n'"
  shows "n = n'"
  using replace_ext_scss[OF assms(1)] replace_ext_scss[OF assms(2)] assms(3) by auto

lemma scss_lies_in_dist: "lies_in ''dist/scss'' p \<Longrightarrow> lies_in ''dist'' p"
  by (auto simp: lies_in_def strip_prefix_iff)

lemma sass_preprocessor_frame:
  "\<not> lies_in ''dist'' p \<Longrightarrow> map_of (sass_preprocessor T fs) p = map_of fs p"
proof -
  assume "\<not> lies_in ''dist'' p"
  then have "\<not> lies_in ''dist/scss'' p" using scss_lies_in_dist by blast
  then show ?thesis by (simp add: sass_preprocessor_def dest_write_frame)
qed

lemma templates_not_dist: "lies_in ''../templates'' p \<Longrightarrow> \<not> lies_in ''dist'' p"
  by (auto simp: lies_in_def strip_prefix_iff)

text \<open>
  C6: a run of a task of the style pipeline (\<^verbatim>\<open>sass-preprocessor\<close>, \<^verbatim>\<open>css\<close>, earlier
  \<^verbatim>\<open>styles\<close>) or of the script pipeline (\<^verbatim>\<open>js\<close>) changes the contents of paths in \<^verbatim>\<open>dist\<close>
  only and leaves every path in \<^verbatim>\<open>../templates\<close> as it was; of the six tasks, only \<^verbatim>\<open>html\<close>
  and \<^verbatim>\<open>ipython-css\<close> can change a path in \<^verbatim>\<open>../templates\<close>.
\<close>

theorem style_and_script_write_only_dist:
  assumes "f = (\<lambda>fs. Some (sass_preprocessor T fs)) \<or> f = css T \<or> f = js T \<or> f = styles T \<or> f = js_v0 T"
  shows "(\<forall>fs'. f fs = Some fs' \<longrightarrow>
            (\<forall>p. map_of fs' p \<noteq> map_of fs p \<longrightarrow> lies_in ''dist'' p) \<and>
            (\<forall>p. lies_in ''../templates'' p \<longrightarrow> map_of fs' p = map_of fs p)) \<and>
         (\<forall>t fs'. t \<noteq> Html \<and> t \<noteq> Ipython_css \<and> task_fn T t fs = Some fs' \<longrightarrow>
            (\<forall>p. lies_in ''../templates'' p \<longrightarrow> map_of fs' p = map_of fs p))"
proof -
  have frame: "map_of fs' p = map_of fs p" if "f fs = Some fs'" "\<not> lies_in ''dist'' p" for fs' p
    using assms that
    by (auto simp: sass_preprocessor_frame css_frame styles_frame js_def js_v0_def js_pipeline_frame)
  have tasks: "map_of fs' p = map_of fs p"
    if "t \<noteq> Html" "t \<noteq> Ipython_css" "task_fn T t fs = Some fs'" "lies_in ''../templates'' p" for t fs' p
    using that templates_not_dist[OF that(4)]
    by (cases t) (auto simp: sass_preprocessor_frame css_frame js_def js_pipeline_frame)
  from frame tasks templates_not_dist show ?thesis by blast
qed

theorem style_and_script_write_only_dist_witness:
  "lies_in ''../templates'' ''../templates/ipython.css'' \<and>
   (\<exists>fs'. css plain_tools (sass_preprocessor plain_tools demo_styles) = Some fs' \<and>
      map_of fs' ''../templates/ipython.css'' =
        map_of (sass_preprocessor plain_tools demo_styles) ''../templates/ipython.css'') \<and>
   (\<exists>fs'. js plain_tools demo_site = Some fs' \<and>
      map_of fs' ''../templates/index.html'' = map_of demo_site ''../templates/index.html'')"
proof -
  have l: "lies_in ''../templates'' ''../templates/ipython.css''"
    "lies_in ''../templates'' ''../templates/index.html''"
    by (simp_all add: lies_in_def)
  have "css plain_tools (sass_preprocessor plain_tools demo_styles) \<noteq> None"
    by code_simp
  then obtain fs1 where 1: "css plain_tools (sass_preprocessor plain_tools demo_styles) = Some fs1"
    by blast
  have "js plain_tools demo_site \<noteq> None"
    by code_simp
  then obtain fs2 where 2: "js plain_tools demo_site = Some fs2"
    by blast
  from style_and_script_write_only_dist[of "css plain_tools" plain_tools "sass_preprocessor plain_tools demo_styles"]
    1 l(1)
  have a: "map_of fs1 ''../templates/ipython.css'' =
        map_of (sass_preprocessor plain_tools demo_styles) ''../templates/ipython.css''"
    by blast
  from style_and_script_write_only_dist[of "js plain_tools" plain_tools demo_site] 2 l(2)
  have b: "map_of fs2 ''../templates/index.html'' = map_of demo_site ''../templates/index.html''"
    by blast
  from l(1) 1 2 a b show ?thesis by blast
qed

subsection \<open>The rewriting of imports\<close>

lemma terminator_at_Cons_plain:
  "c \<noteq> CHR 0x0A \<Longrightarrow> c \<noteq> CHR 0x0D \<Longrightarrow> c \<noteq> CHR 0xE2 \<Longrightarrow> terminator_at (c # cs) = None"
  by (simp add: terminator_at_def line_terminators_def line_separator_def paragraph_separator_def)

lemma split_line_Cons_plain:
  "c \<noteq> CHR 0x0A \<Longrightarrow> c \<noteq> CHR 0x0D \<Longrightarrow> c \<noteq> CHR 0xE2 \<Longrightarrow>
   split_line (c # cs) = (c # fst (split_line cs), snd (split_line cs))"
  by (simp add: terminator_at_Cons_plain split: prod.splits)

lemma split_line_id:
  "split_line s = (l, t) \<Longrightarrow> s = l @ (case t of None \<Rightarrow> [] | Some (lt, rest) \<Rightarrow> lt @ rest)"
proof (induction s arbitrary: l)
  case Nil
  then show ?case by simp
next
  case (Cons c cs)
  show ?case
  proof (cases "terminator_at (c # cs)")
    case None
    with Cons.prems obtain l' where l': "split_line cs = (l', t)" "l = c # l'"
      by (auto split: prod.splits)
    from Cons.IH[OF l'(1)] l'(2) show ?thesis by simp
  next
    case (Some a)
    obtain lt rest where a: "a = (lt, rest)" by (cases a)
    with Some Cons.prems have "l = []" "t = Some (lt, rest)" by auto
    with terminator_at_Some(1)[OF Some[unfolded a]] show ?thesis by simp
  qed
qed

lemma split_line_free:
  "split_line s = (l, t) \<Longrightarrow> i < length l \<Longrightarrow> terminator_at (drop i s) = None"
proof (induction s arbitrary: l i)
  case Nil
  then show ?case by simp
next
  case (Cons c cs)
  show ?case
  proof (cases "terminator_at (c # cs)")
    case None
    with Cons.prems(1) obtain l' where l': "split_line cs = (l', t)" "l = c # l'"
      by (auto split: prod.splits)
    show ?thesis
    proof (cases i)
      case 0
      with None show ?thesis by simp
    next
      case (Suc j)
      with Cons.prems(2) l'(2) have "j < length l'" by simp
      from Cons.IH[OF l'(1) this] Suc show ?thesis by simp
    qed
  next
    case (Some a)
    with Cons.prems(1) have "l = []" by (auto split: prod.splits)
    with Cons.prems(2) show ?thesis by simp
  qed
qed

lemma split_line_append:
  assumes "\<And>i. i < length x \<Longrightarrow> terminator_at (drop i (x @ y)) = None"
  shows "split_line (x @ y) = (x @ fst (split_line y), snd (split_line y))"
  using assms
proof (induction x)
  case Nil
  show ?case by simp
next
  case (Cons c x)
  have 0: "terminator_at (c # x @ y) = None" using Cons.prems[of 0] by simp
  have "split_line (x @ y) = (x @ fst (split_line y), snd (split_line y))"
  proof (rule Cons.IH)
    fix i assume "i < length x"
    then show "terminator_at (drop i (x @ y)) = None" using Cons.prems[of "Suc i"] by simp
  qed
  with 0 show ?case by simp
qed

lemma replace_imports_mid:
  "replace_imports False s =
     fst (split_line s) @
     (case snd (split_line s) of None \<Rightarrow> [] | Some (lt, rest) \<Rightarrow> lt @ replace_imports True rest)"
  by (induction s) (auto split: option.splits prod.splits)

lemma lazy_dots_sound:
  "lazy_dots q r = Some (path, post) \<Longrightarrow>
     r = path @ q # post \<and> q \<notin> set path \<and> (\<forall>i<length path. terminator_at (drop i r) = None)"
proof (induction r arbitrary: path)
  case Nil
  then show ?case by simp
next
  case (Cons c cs)
  show ?case
  proof (cases "c = q")
    case True
    with Cons.prems show ?thesis by simp
  next
    case False
    with Cons.prems have t: "terminator_at (c # cs) = None"
      by (cases "terminator_at (c # cs)") (auto split: if_splits)
    with False Cons.prems obtain path' where p: "lazy_dots q cs = Some (path', post)" "path = c # path'"
      by auto
    note IH = Cons.IH[OF p(1)]
    have ih: "cs = path' @ q # post" "q \<notin> set path'"
      "\<forall>i<length path'. terminator_at (drop i cs) = None"
      by (rule IH[THEN conjunct1], rule IH[THEN conjunct2, THEN conjunct1],
          rule IH[THEN conjunct2, THEN conjunct2])
    have "terminator_at (drop i (c # cs)) = None" if "i < length path" for i
    proof (cases i)
      case 0
      with t show ?thesis by simp
    next
      case (Suc j)
      with that p(2) have "j < length path'" by simp
      with ih(3) Suc show ?thesis by simp
    qed
    then have "\<forall>i<length path. terminator_at (drop i (c # cs)) = None" by blast
    moreover have "c # cs = path @ q # post" using ih(1) p(2) by simp
    moreover have "q \<notin> set path" using ih(2) p(2) False by auto
    ultimately show ?thesis by (intro conjI)
  qed
qed

lemma lazy_dots_complete:
  assumes "q \<notin> set path"
    and "\<And>i. i < length path \<Longrightarrow> terminator_at (drop i (path @ q # post)) = None"
  shows "lazy_dots q (path @ q # post) = Some (path, post)"
  using assms
proof (induction path)
  case Nil
  show ?case by simp
next
  case (Cons c path)
  have 0: "terminator_at (c # path @ q # post) = None" using Cons.prems(2)[of 0] by simp
  have "lazy_dots q (path @ q # post) = Some (path, post)"
  proof (rule Cons.IH)
    show "q \<notin> set path" using Cons.prems(1) by simp
  next
    fix i assume "i < length path"
    then show "terminator_at (drop i (path @ q # post)) = None"
      using Cons.prems(2)[of "Suc i"] by simp
  qed
  with 0 Cons.prems(1) show ?case by auto
qed

lemma match_import_sound:
  assumes "match_import s = Some (path, post)"
  shows "\<exists>q. (q = dquote \<or> q = squote) \<and> s = import_open @ q # CHR ''~'' # path @ q # post \<and>
           q \<notin> set path \<and> (\<forall>i<length path. terminator_at (drop i (path @ q # post)) = None)"
proof -
  from assms obtain q r' where q: "q = dquote \<or> q = squote"
    and s: "s = import_open @ q # CHR ''~'' # r'"
    and d: "lazy_dots q r' = Some (path, post)"
    by (auto simp: match_import_def strip_prefix_iff split: option.splits list.splits if_splits)
  from lazy_dots_sound[OF d] have "r' = path @ q # post" "q \<notin> set path"
    "\<forall>i<length path. terminator_at (drop i (path @ q # post)) = None"
    by auto
  with q s show ?thesis by blast
qed

lemma match_import_complete:
  assumes "q = dquote \<or> q = squote" and "q \<notin> set path"
    and "\<And>i. i < length path \<Longrightarrow> terminator_at (drop i (path @ q # post)) = None"
  shows "match_import (import_open @ q # CHR ''~'' # path @ q # post) = Some (path, post)"
proof -
  have "strip_prefix import_open (import_open @ q # CHR ''~'' # path @ q # post) =
          Some (q # CHR ''~'' # path @ q # post)"
    by (simp add: strip_prefix_iff)
  moreover have "lazy_dots q (path @ q # post) = Some (path, post)"
    using assms(2,3) by (rule lazy_dots_complete)
  ultimately show ?thesis using assms(1) by (auto simp: match_import_def)
qed

text \<open>A line on which the expression does not match at its start is left as it is.\<close>

lemma no_match_line:
  assumes "match_import s = None"
  shows "spec_rewrite_line (fst (split_line s)) = fst (split_line s)"
proof (rule ccontr)
  let ?l = "fst (split_line s)"
  let ?tail = "case snd (split_line s) of None \<Rightarrow> [] | Some (lt, rest) \<Rightarrow> lt @ rest"
  assume "spec_rewrite_line ?l \<noteq> ?l"
  then obtain q r where q: "q = dquote \<or> q = squote" and l: "?l = import_open @ q # CHR ''~'' # r"
    and qr: "q \<in> set r"
    by (auto simp: spec_rewrite_line_def strip_prefix_iff split: option.splits list.splits if_splits)
  from qr obtain path rest where r: "r = path @ q # rest" "q \<notin> set path"
    by (auto dest: split_list_first)
  have s: "s = ?l @ ?tail"
    by (rule split_line_id) simp
  let ?x = "import_open @ [q, CHR ''~'']"
  have s': "s = ?x @ (path @ q # (rest @ ?tail))"
    using s l r(1) by simp
  have "terminator_at (drop i (path @ q # (rest @ ?tail))) = None" if "i < length path" for i
  proof -
    have "length ?x + i < length ?l" using that l r(1) by simp
    then have "terminator_at (drop (length ?x + i) s) = None"
      by (intro split_line_free[of s ?l "snd (split_line s)"]) simp_all
    moreover have "drop (length ?x + i) s = drop i (path @ q # (rest @ ?tail))"
      by (subst s') (simp only: drop_append length_append, simp)
    ultimately show ?thesis by simp
  qed
  with q r(2) have "match_import (import_open @ q # CHR ''~'' # path @ q # (rest @ ?tail)) =
      Some (path, rest @ ?tail)"
    by (intro match_import_complete)
  with s' assms show False by simp
qed

text \<open>
  Where the expression matches, the match lies on the first line, whose end is the end of
  the first line of what follows the match.
\<close>

lemma match_line:
  assumes "match_import s = Some (path, post)"
  shows "snd (split_line s) = snd (split_line post)"
    and "spec_rewrite_line (fst (split_line s)) =
           import_open @ [dquote] @ path @ [dquote] @ fst (split_line post)"
proof -
  from match_import_sound[OF assms] obtain q where q: "q = dquote \<or> q = squote"
    and s: "s = import_open @ q # CHR ''~'' # path @ q # post"
    and n: "q \<notin> set path"
    and f: "\<forall>i<length path. terminator_at (drop i (path @ q # post)) = None"
    by blast
  have qp: "split_line (q # post) = (q # fst (split_line post), snd (split_line post))"
    using q by (intro split_line_Cons_plain) (auto simp: dquote_def squote_def)
  have "split_line (path @ q # post) = (path @ fst (split_line (q # post)), snd (split_line (q # post)))"
    using f by (intro split_line_append) simp
  with qp have pp: "split_line (path @ q # post) = (path @ q # fst (split_line post), snd (split_line post))"
    by simp
  have "split_line (q # CHR ''~'' # path @ q # post) =
      (q # CHR ''~'' # path @ q # fst (split_line post), snd (split_line post))"
    using q pp by (auto simp: split_line_Cons_plain dquote_def squote_def simp del: split_line.simps)
  then have sl: "split_line s =
      (import_open @ q # CHR ''~'' # path @ q # fst (split_line post), snd (split_line post))"
    unfolding s by (simp add: import_open_def split_line_Cons_plain del: split_line.simps)
  then show "snd (split_line s) = snd (split_line post)" by simp
  let ?r = "path @ q # fst (split_line post)"
  have "takeWhile (\<lambda>c. c \<noteq> q) ?r = path"
    using n by (subst takeWhile_append2) auto
  moreover have "dropWhile (\<lambda>c. c \<noteq> q) ?r = q # fst (split_line post)"
    using n by (subst dropWhile_append2) auto
  moreover have "strip_prefix import_open (import_open @ q # CHR ''~'' # ?r) = Some (q # CHR ''~'' # ?r)"
    by (simp add: strip_prefix_iff)
  ultimately have "spec_rewrite_line (import_open @ q # CHR ''~'' # ?r) =
      import_open @ [dquote] @ path @ [dquote] @ fst (split_line post)"
    using q by (simp add: spec_rewrite_line_def)
  with sl show "spec_rewrite_line (fst (split_line s)) =
           import_open @ [dquote] @ path @ [dquote] @ fst (split_line post)"
    by simp
qed

lemma replace_imports_line:
  "replace_imports True s =
     spec_rewrite_line (fst (split_line s)) @
     (case snd (split_line s) of None \<Rightarrow> [] | Some (lt, rest) \<Rightarrow> lt @ replace_imports True rest)"
proof (cases "match_import s")
  case None
  then have "replace_imports True s = replace_imports False s"
    by (cases s) simp_all
  with no_match_line[OF None] show ?thesis
    by (simp add: replace_imports_mid[symmetric])
next
  case (Some a)
  obtain path post where a: "a = (path, post)" by (cases a)
  from Some a have "s \<noteq> []"
    by (auto simp: match_import_def import_open_def)
  then obtain c cs where s: "s = c # cs" by (cases s) auto
  with Some a have "replace_imports True s =
      import_open @ [dquote] @ path @ [dquote] @ replace_imports False post"
    by simp
  also have "\<dots> = import_open @ [dquote] @ path @ [dquote] @ fst (split_line post) @
      (case snd (split_line post) of None \<Rightarrow> [] | Some (lt, rest) \<Rightarrow> lt @ replace_imports True rest)"
    by (subst replace_imports_mid) simp
  finally show ?thesis
    using match_line[OF Some[unfolded a]] by simp
qed

lemma spec_rewrite_unfold:
  "spec_rewrite s =
     spec_rewrite_line (fst (split_line s)) @
     (case snd (split_line s) of None \<Rightarrow> [] | Some (lt, rest) \<Rightarrow> lt @ spec_rewrite rest)"
  unfolding spec_rewrite_def
  by (subst lines_of.simps) (auto split: prod.splits option.splits)

lemma replace_imports_spec: "replace_imports True s = spec_rewrite s"
proof (induction s rule: length_induct)
  case (1 s)
  show ?case
  proof (cases "snd (split_line s)")
    case None
    then show ?thesis
      by (subst replace_imports_line, subst spec_rewrite_unfold) simp
  next
    case (Some a)
    obtain lt rest where a: "a = (lt, rest)" by (cases a)
    have "split_line s = (fst (split_line s), Some (lt, rest))"
      using Some a by (simp add: prod_eq_iff)
    then have "length rest < length s" by (rule split_line_shorter)
    with 1 have "replace_imports True rest = spec_rewrite rest" by blast
    with Some a show ?thesis
      by (subst replace_imports_line, subst spec_rewrite_unfold) simp
  qed
qed

lemma lines_of_concat: "concat (map (\<lambda>(l, t). l @ t) (lines_of s)) = s"
proof (induction s rule: length_induct)
  case (1 s)
  obtain l t where lt: "split_line s = (l, t)" by (cases "split_line s")
  show ?case
  proof (cases t)
    case None
    with lt split_line_id[OF lt] show ?thesis
      by (subst lines_of.simps) simp
  next
    case (Some a)
    obtain lt' rest where a: "a = (lt', rest)" by (cases a)
    from lt Some a have "length rest < length s" by (intro split_line_shorter) simp
    with 1 have "concat (map (\<lambda>(l, t). l @ t) (lines_of rest)) = rest" by blast
    with lt Some a split_line_id[OF lt] show ?thesis
      by (subst lines_of.simps) simp
  qed
qed

subsection \<open>Files of the style pipeline\<close>

lemma map_files_opt_cong:
  "(\<And>v. v \<in> set fls \<Longrightarrow> f v = g v) \<Longrightarrow> map_files_opt f fls = map_files_opt g fls"
  by (induction fls) (auto split: option.splits)

lemma css_in_iff:
  "v \<in> set (css_in fs) \<longleftrightarrow>
     base v = ''dist/scss'' \<and> glob_name ''.scss'' (relative v) \<and> \<not> is_partial (relative v) \<and>
     (\<exists>d. map_of fs (''dist/scss/'' @ relative v) = Some d \<and> contents v = strip_bom d)"
  by (auto simp: css_in_def src_glob_iff)

lemma css_eq:
  "css T fs =
     (if \<forall>v\<in>set (css_in fs). css_contents T fs (contents v) \<noteq> None
      then Some (dest_write ''dist'' (css_out T fs) fs) else None)"
proof -
  let ?P = "[autoprefixer T, atImport T (visible [''dist/scss'', ''node_modules''] fs), cssnano T]"
  let ?f = "\<lambda>v. map_option (\<lambda>c. v\<lparr>relative := replace_ext ''.css'' (relative v), contents := c\<rparr>)
              (sass_contents (sass T) (visible (base v # [''dist/scss'', ''node_modules'']) fs) (contents v))"
  let ?g = "\<lambda>v. map_option (\<lambda>c. v\<lparr>contents := c\<rparr>) (run_plugins ?P (contents v))"
  let ?h = "\<lambda>v. map_option (\<lambda>c. v\<lparr>relative := replace_ext ''.css'' (relative v), contents := c\<rparr>)
              (css_contents T fs (contents v))"
  have "Option.bind (?f v) ?g = ?h v" if "v \<in> set (css_in fs)" for v
  proof -
    from that have "base v = ''dist/scss''" by (simp add: css_in_iff)
    then show ?thesis
      by (cases "sass_contents (sass T) (visible [''dist/scss'', ''dist/scss'', ''node_modules''] fs) (contents v)")
         (simp_all add: css_contents_def option.map_comp comp_def)
  qed
  then have "map_files_opt (\<lambda>v. Option.bind (?f v) ?g) (css_in fs) = map_files_opt ?h (css_in fs)"
    by (rule map_files_opt_cong)
  then have "Option.bind (gulp_sass (sass T) [''dist/scss'', ''node_modules''] fs (src_glob ''dist/scss'' ''.scss'' fs))
               (gulp_postcss ?P) = map_files_opt ?h (css_in fs)"
    unfolding gulp_sass_def gulp_postcss_def map_contents_opt_def css_in_def[symmetric] map_files_opt_bind .
  then have c: "css T fs = map_option (\<lambda>files. dest_write ''dist'' files fs) (map_files_opt ?h (css_in fs))"
    by (simp add: css_def Let_def)
  have m: "map (\<lambda>v. the (?h v)) (css_in fs) = css_out T fs"
    if "\<forall>v\<in>set (css_in fs). css_contents T fs (contents v) \<noteq> None"
    using that by (auto simp: css_out_def)
  have n: "(\<forall>v\<in>set (css_in fs). ?h v \<noteq> None) \<longleftrightarrow>
      (\<forall>v\<in>set (css_in fs). css_contents T fs (contents v) \<noteq> None)"
    by simp
  show ?thesis
  proof (cases "\<forall>v\<in>set (css_in fs). css_contents T fs (contents v) \<noteq> None")
    case True
    with n have "\<forall>v\<in>set (css_in fs). ?h v \<noteq> None" by blast
    then have "map_files_opt ?h (css_in fs) = Some (map (\<lambda>v. the (?h v)) (css_in fs))"
      by (subst map_files_opt_eq) (rule if_P)
    with True m[OF True] c show ?thesis by simp
  next
    case False
    with n have "\<not> (\<forall>v\<in>set (css_in fs). ?h v \<noteq> None)" by blast
    then have "map_files_opt ?h (css_in fs) = None"
      by (subst map_files_opt_eq) (rule if_not_P)
    with False c show ?thesis by simp
  qed
qed

lemma css_out_iff:
  "v \<in> set (css_out T fs) \<longleftrightarrow>
     (\<exists>n d. glob_name ''.scss'' n \<and> \<not> is_partial n \<and> map_of fs (''dist/scss/'' @ n) = Some d \<and>
        v = \<lparr>base = ''dist/scss'', relative = replace_ext ''.css'' n,
             contents = the (css_contents T fs (strip_bom d))\<rparr>)"
  (is "?L \<longleftrightarrow> ?R")
proof
  assume ?L
  then obtain g where g: "g \<in> set (css_in fs)"
    and v: "v = g\<lparr>relative := replace_ext ''.css'' (relative g),
                  contents := the (css_contents T fs (contents g))\<rparr>"
    by (auto simp: css_out_def)
  from g obtain d where "base g = ''dist/scss''" "glob_name ''.scss'' (relative g)"
    "\<not> is_partial (relative g)" "map_of fs (''dist/scss/'' @ relative g) = Some d"
    "contents g = strip_bom d"
    by (auto simp: css_in_iff)
  moreover from this v have "v = \<lparr>base = ''dist/scss'', relative = replace_ext ''.css'' (relative g),
      contents = the (css_contents T fs (strip_bom d))\<rparr>"
    by simp
  ultimately show ?R by blast
next
  assume ?R
  then obtain n d where n: "glob_name ''.scss'' n" "\<not> is_partial n"
    "map_of fs (''dist/scss/'' @ n) = Some d"
    and v: "v = \<lparr>base = ''dist/scss'', relative = replace_ext ''.css'' n,
                 contents = the (css_contents T fs (strip_bom d))\<rparr>"
    by blast
  let ?g = "\<lparr>base = ''dist/scss'', relative = n, contents = strip_bom d\<rparr>"
  have "?g \<in> set (css_in fs)"
    using n by (simp add: css_in_iff)
  then have "?g\<lparr>relative := replace_ext ''.css'' (relative ?g),
                contents := the (css_contents T fs (contents ?g))\<rparr> \<in> set (css_out T fs)"
    unfolding css_out_def set_map by (rule imageI)
  with v show ?L by simp
qed

lemma css_out_distinct: "distinct (map relative (css_out T fs))"
proof -
  let ?F = "css_in fs"
  have rel: "map relative (css_out T fs) = map (\<lambda>g. replace_ext ''.css'' (relative g)) ?F"
    by (simp add: css_out_def comp_def)
  have "distinct (map relative ?F)"
    using src_glob_distinct[of "''dist/scss''" "''.scss''" fs] by (simp add: css_in_def distinct_map_filter)
  moreover have "inj_on (replace_ext ''.css'') (set (map relative ?F))"
    by (rule inj_onI) (auto simp: css_in_iff intro: replace_ext_scss_inj)
  ultimately have "distinct (map (replace_ext ''.css'') (map relative ?F))"
    unfolding distinct_map[of "replace_ext ''.css''" "map relative ?F"] by blast
  then show ?thesis by (simp add: rel comp_def)
qed

lemma css_file:
  assumes run: "css T fs = Some fs'"
    and n: "glob_name ''.scss'' n" "\<not> is_partial n" "map_of fs (''dist/scss/'' @ n) = Some d"
  shows "\<exists>out. css_contents T fs (strip_bom d) = Some out \<and>
           map_of fs' (''dist/'' @ replace_ext ''.css'' n) = Some out"
proof -
  from run have ok: "\<forall>v\<in>set (css_in fs). css_contents T fs (contents v) \<noteq> None"
    and fs': "fs' = dest_write ''dist'' (css_out T fs) fs"
    by (auto simp: css_eq split: if_splits)
  let ?g = "\<lparr>base = ''dist/scss'', relative = n, contents = strip_bom d\<rparr>"
  have "?g \<in> set (css_in fs)" using n by (simp add: css_in_iff)
  with ok have "css_contents T fs (contents ?g) \<noteq> None" by (rule bspec)
  then obtain out where out: "css_contents T fs (strip_bom d) = Some out" by auto
  let ?v = "\<lparr>base = ''dist/scss'', relative = replace_ext ''.css'' n, contents = out\<rparr>"
  have "?v \<in> set (css_out T fs)" using n out by (auto simp: css_out_iff)
  with css_out_distinct have "map_of (dest_write ''dist'' (css_out T fs) fs) (dest_path ''dist'' ?v) = Some (contents ?v)"
    by (rule dest_write_hit)
  with out fs' show ?thesis by (simp add: dest_path_def)
qed

lemma css_other:
  assumes run: "css T fs = Some fs'"
    and p: "\<And>n. glob_name ''.scss'' n \<Longrightarrow> \<not> is_partial n \<Longrightarrow> map_of fs (''dist/scss/'' @ n) \<noteq> None \<Longrightarrow>
             p \<noteq> ''dist/'' @ replace_ext ''.css'' n"
  shows "map_of fs' p = map_of fs p"
proof -
  from run have fs': "fs' = dest_write ''dist'' (css_out T fs) fs"
    by (auto simp: css_eq split: if_splits)
  show ?thesis
    unfolding fs'
  proof (rule dest_write_other)
    fix v assume "v \<in> set (css_out T fs)"
    then obtain n d where "glob_name ''.scss'' n" "\<not> is_partial n" "map_of fs (''dist/scss/'' @ n) = Some d"
      "relative v = replace_ext ''.css'' n"
      by (auto simp: css_out_iff)
    with p[of n] show "dest_path ''dist'' v \<noteq> p" by (auto simp: dest_path_def)
  qed
qed

lemma css_None:
  "css T fs = None \<longleftrightarrow>
     (\<exists>n d. glob_name ''.scss'' n \<and> \<not> is_partial n \<and> map_of fs (''dist/scss/'' @ n) = Some d \<and>
        css_contents T fs (strip_bom d) = None)"
proof -
  have "css T fs = None \<longleftrightarrow> (\<exists>v\<in>set (css_in fs). css_contents T fs (contents v) = None)"
    by (simp add: css_eq)
  also have "\<dots> \<longleftrightarrow> (\<exists>n d. glob_name ''.scss'' n \<and> \<not> is_partial n \<and>
      map_of fs (''dist/scss/'' @ n) = Some d \<and> css_contents T fs (strip_bom d) = None)"
  proof
    assume "\<exists>v\<in>set (css_in fs). css_contents T fs (contents v) = None"
    then obtain v where "v \<in> set (css_in fs)" "css_contents T fs (contents v) = None" by blast
    then show "\<exists>n d. glob_name ''.scss'' n \<and> \<not> is_partial n \<and>
      map_of fs (''dist/scss/'' @ n) = Some d \<and> css_contents T fs (strip_bom d) = None"
      by (auto simp: css_in_iff)
  next
    assume "\<exists>n d. glob_name ''.scss'' n \<and> \<not> is_partial n \<and>
      map_of fs (''dist/scss/'' @ n) = Some d \<and> css_contents T fs (strip_bom d) = None"
    then obtain n d where n: "glob_name ''.scss'' n" "\<not> is_partial n"
      "map_of fs (''dist/scss/'' @ n) = Some d" "css_contents T fs (strip_bom d) = None"
      by blast
    let ?g = "\<lparr>base = ''dist/scss'', relative = n, contents = strip_bom d\<rparr>"
    have "?g \<in> set (css_in fs)" using n by (simp add: css_in_iff)
    with n(4) show "\<exists>v\<in>set (css_in fs). css_contents T fs (contents v) = None" by force
  qed
  finally show ?thesis .
qed


lemma sass_preprocessor_file:
  assumes "glob_name ''.scss'' n" and "map_of fs (''src/scss/'' @ n) = Some c"
  shows "map_of (sass_preprocessor T fs) (''dist/scss/'' @ n) =
           Some (replace_imports True (utf8 T (strip_bom c)))"
proof -
  let ?g = "\<lparr>base = ''src/scss'', relative = n, contents = strip_bom c\<rparr>"
  let ?v = "?g\<lparr>contents := replace_imports True (utf8 T (strip_bom c))\<rparr>"
  have "?g \<in> set (src_glob ''src/scss'' ''.scss'' fs)" using assms by (simp add: src_glob_iff)
  then have "?v \<in> set (pre_out T fs)"
    unfolding pre_out_def in_map_contents by force
  moreover have "distinct (map relative (pre_out T fs))"
    by (simp add: pre_out_def relative_map_contents src_glob_distinct)
  ultimately have "map_of (dest_write ''dist/scss'' (pre_out T fs) fs) (dest_path ''dist/scss'' ?v) = Some (contents ?v)"
    by (intro dest_write_hit)
  then show ?thesis by (simp add: sass_preprocessor_def pre_out_def dest_path_def)
qed

lemma sass_preprocessor_other:
  assumes "\<And>n. glob_name ''.scss'' n \<Longrightarrow> map_of fs (''src/scss/'' @ n) \<noteq> None \<Longrightarrow> p \<noteq> ''dist/scss/'' @ n"
  shows "map_of (sass_preprocessor T fs) p = map_of fs p"
  unfolding sass_preprocessor_def
proof (rule dest_write_other)
  fix v assume "v \<in> set (map_contents (\<lambda>c. replace_imports True (utf8 T c)) (src_glob ''src/scss'' ''.scss'' fs))"
  then have "glob_name ''.scss'' (relative v)" "map_of fs (''src/scss/'' @ relative v) \<noteq> None"
    by (auto simp: in_map_contents src_glob_iff)
  with assms[of "relative v"] show "dest_path ''dist/scss'' v \<noteq> p" by (auto simp: dest_path_def)
qed


text \<open>
  C8, as amended: \<^verbatim>\<open>sass-preprocessor\<close> takes the text of every \<^verbatim>\<open>.scss\<close> file of \<^verbatim>\<open>src/scss\<close>,
  which is the file without a byte order mark at its start, decoded as UTF-8 and encoded
  again, and rewrites it line by line, lines being ended by LF, CR, U+2028 and U+2029: a line that begins with \<^verbatim>\<open>@import "~path"\<close> or \<^verbatim>\<open>@import '~path'\<close> begins
  with \<^verbatim>\<open>@import "path"\<close> afterwards and is otherwise unchanged, every other line and every
  line terminator is unchanged. The result is written under the same name to
  \<^verbatim>\<open>dist/scss\<close>, and nothing else is written. The \<^verbatim>\<open>css\<close> task compiles that rewritten file:
  it fails when Sass or a PostCSS plugin fails on it, and when it completes,
  \<^verbatim>\<open>dist/N.css\<close> holds what they make of \<^verbatim>\<open>dist/scss/N.scss\<close>; every file the task writes
  comes from a source in \<^verbatim>\<open>dist/scss\<close>.
\<close>

theorem sass_preprocessor_strips_tilde:
  assumes "glob_name ''.scss'' n" and "map_of fs (''src/scss/'' @ n) = Some c"
  shows "map_of (sass_preprocessor T fs) (''dist/scss/'' @ n) = Some (spec_rewrite (utf8 T (strip_bom c))) \<and>
         concat (map (\<lambda>(l, t). l @ t) (lines_of (utf8 T (strip_bom c)))) = utf8 T (strip_bom c) \<and>
         (\<forall>p. map_of (sass_preprocessor T fs) p \<noteq> map_of fs p \<longrightarrow>
            (\<exists>m. glob_name ''.scss'' m \<and> map_of fs (''src/scss/'' @ m) \<noteq> None \<and> p = ''dist/scss/'' @ m)) \<and>
         (\<not> is_partial n \<longrightarrow>
            (css_contents T (sass_preprocessor T fs) (strip_bom (spec_rewrite (utf8 T (strip_bom c)))) = None \<longrightarrow>
               css T (sass_preprocessor T fs) = None) \<and>
            (\<forall>fs'. css T (sass_preprocessor T fs) = Some fs' \<longrightarrow>
               map_of fs' (''dist/'' @ replace_ext ''.css'' n) =
                 css_contents T (sass_preprocessor T fs) (strip_bom (spec_rewrite (utf8 T (strip_bom c)))))) \<and>
         (\<forall>fs0 fs' p. css T fs0 = Some fs' \<and> map_of fs' p \<noteq> map_of fs0 p \<longrightarrow>
            (\<exists>m d. glob_name ''.scss'' m \<and> \<not> is_partial m \<and> map_of fs0 (''dist/scss/'' @ m) = Some d \<and>
                   p = ''dist/'' @ replace_ext ''.css'' m))"
proof -
  let ?pre = "sass_preprocessor T fs"
  let ?d = "spec_rewrite (utf8 T (strip_bom c))"
  have 1: "map_of ?pre (''dist/scss/'' @ n) = Some ?d"
    using sass_preprocessor_file[OF assms, of T] by (simp add: replace_imports_spec)
  have 2: "concat (map (\<lambda>(l, t). l @ t) (lines_of (utf8 T (strip_bom c)))) = utf8 T (strip_bom c)"
    by (rule lines_of_concat)
  have 3: "\<exists>m. glob_name ''.scss'' m \<and> map_of fs (''src/scss/'' @ m) \<noteq> None \<and> p = ''dist/scss/'' @ m"
    if "map_of ?pre p \<noteq> map_of fs p" for p
    using sass_preprocessor_other[of fs p T] that by blast
  have 4: "css T ?pre = None" if "\<not> is_partial n" "css_contents T ?pre (strip_bom ?d) = None"
    unfolding css_None using assms(1) that 1 by blast
  have 5: "map_of fs' (''dist/'' @ replace_ext ''.css'' n) = css_contents T ?pre (strip_bom ?d)"
    if "\<not> is_partial n" "css T ?pre = Some fs'" for fs'
    using css_file[OF that(2) assms(1) that(1) 1] by auto
  have 6: "\<exists>m d. glob_name ''.scss'' m \<and> \<not> is_partial m \<and> map_of fs0 (''dist/scss/'' @ m) = Some d \<and>
                   p = ''dist/'' @ replace_ext ''.css'' m"
    if "css T fs0 = Some fs'" "map_of fs' p \<noteq> map_of fs0 p" for fs0 fs' p
    using css_other[OF that(1), of p] that(2) by fastforce
  show ?thesis
  proof (intro conjI allI impI)
    show "map_of ?pre (''dist/scss/'' @ n) = Some ?d" by (rule 1)
    show "concat (map (\<lambda>(l, t). l @ t) (lines_of (utf8 T (strip_bom c)))) = utf8 T (strip_bom c)"
      by (rule 2)
  next
    fix p assume "map_of ?pre p \<noteq> map_of fs p"
    then show "\<exists>m. glob_name ''.scss'' m \<and> map_of fs (''src/scss/'' @ m) \<noteq> None \<and> p = ''dist/scss/'' @ m"
      by (rule 3)
  next
    assume "\<not> is_partial n" "css_contents T ?pre (strip_bom ?d) = None"
    then show "css T ?pre = None" by (rule 4)
  next
    fix fs' assume "\<not> is_partial n" "css T ?pre = Some fs'"
    then show "map_of fs' (''dist/'' @ replace_ext ''.css'' n) = css_contents T ?pre (strip_bom ?d)"
      by (rule 5)
  next
    fix fs0 fs' p assume "css T fs0 = Some fs' \<and> map_of fs' p \<noteq> map_of fs0 p"
    then show "\<exists>m d. glob_name ''.scss'' m \<and> \<not> is_partial m \<and> map_of fs0 (''dist/scss/'' @ m) = Some d \<and>
                   p = ''dist/'' @ replace_ext ''.css'' m"
      using 6 by blast
  qed
qed

theorem sass_preprocessor_strips_tilde_witness:
  \<open>glob_name ''.scss'' ''main.scss'' \<and> glob_name ''.scss'' ''b.scss'' \<and>
   map_of (sass_preprocessor plain_tools demo_styles) (''dist/scss/'' @ ''main.scss'') = Some demo_main_scss \<and>
   map_of (sass_preprocessor plain_tools separated_styles) (''dist/scss/'' @ ''b.scss'') =
     Some separated_scss \<and>
   css plain_tools (sass_preprocessor plain_tools demo_styles) \<noteq> None \<and>
   map_of (the (css plain_tools (sass_preprocessor plain_tools demo_styles)))
     (''dist/'' @ replace_ext ''.css'' ''main.scss'') = Some demo_main_scss\<close>
proof -
  have p: "\<not> is_partial ''main.scss''"
    by (simp add: is_partial_def)
  have ok: "css plain_tools (sass_preprocessor plain_tools demo_styles) \<noteq> None"
    by code_simp
  then obtain fs1 where fs1: "css plain_tools (sass_preprocessor plain_tools demo_styles) = Some fs1"
    by blast
  have cc: "css_contents plain_tools fs (strip_bom demo_main_scss) = Some demo_main_scss" for fs
    by (simp add: css_contents_def sass_contents_def plain_tools_def strip_bom_def
        byte_order_mark_def demo_main_scss_def)
  have g: "glob_name ''.scss'' ''main.scss''" "glob_name ''.scss'' ''b.scss''"
    by (simp_all add: glob_name_def ends_with_def)
  have c: "map_of demo_styles (''src/scss/'' @ ''main.scss'') =
      Some (the (map_of demo_styles ''src/scss/main.scss''))"
    by (simp add: demo_styles_def)
  have b: "map_of separated_styles (''src/scss/'' @ ''b.scss'') =
      Some (the (map_of separated_styles ''src/scss/b.scss''))"
    by (simp add: separated_styles_def)
  have r: "spec_rewrite (utf8 plain_tools (strip_bom (the (map_of demo_styles ''src/scss/main.scss'')))) =
      demo_main_scss"
    by code_simp
  have r': "spec_rewrite (utf8 plain_tools (strip_bom (the (map_of separated_styles ''src/scss/b.scss'')))) =
      separated_scss"
    by code_simp
  note th = sass_preprocessor_strips_tilde[OF g(1) c, of plain_tools]
  from th[THEN conjunct2, THEN conjunct2, THEN conjunct2, THEN conjunct1, THEN mp, OF p,
      THEN conjunct2, rule_format, OF fs1]
  have "map_of fs1 (''dist/'' @ replace_ext ''.css'' ''main.scss'') = Some demo_main_scss"
    unfolding r cc .
  with fs1 have d: "map_of (the (css plain_tools (sass_preprocessor plain_tools demo_styles)))
     (''dist/'' @ replace_ext ''.css'' ''main.scss'') = Some demo_main_scss"
    by simp
  from th[THEN conjunct1]
    sass_preprocessor_strips_tilde[OF g(2) b, of plain_tools, THEN conjunct1] g ok d
  show ?thesis unfolding r r' by (intro conjI)
qed

text \<open>
  C8 as stated fails: from a file that starts with a byte order mark and has no import
  line, the task writes a file that lacks the mark, so not every other character of the
  file is left unchanged.
\<close>

theorem sass_preprocessor_unchanged_counterexample:
  "map_of marked_styles ''src/scss/a.scss'' = Some (byte_order_mark @ ''a{}'') \<and>
   spec_rewrite (byte_order_mark @ ''a{}'') = byte_order_mark @ ''a{}'' \<and>
   map_of (sass_preprocessor plain_tools marked_styles) ''dist/scss/a.scss'' = Some ''a{}'' \<and>
   map_of (sass_preprocessor plain_tools marked_styles) ''dist/scss/a.scss'' \<noteq>
     Some (spec_rewrite (byte_order_mark @ ''a{}''))"
proof -
  have 1: "map_of marked_styles ''src/scss/a.scss'' = Some (byte_order_mark @ ''a{}'')"
    by (simp add: marked_styles_def)
  have 2: "spec_rewrite (byte_order_mark @ ''a{}'') = byte_order_mark @ ''a{}''"
    by code_simp
  have 3: "map_of (sass_preprocessor plain_tools marked_styles) ''dist/scss/a.scss'' = Some ''a{}''"
    by code_simp
  have 4: "''a{}'' \<noteq> byte_order_mark @ ''a{}''"
    by (simp add: byte_order_mark_def)
  from 1 2 3 4 show ?thesis by simp
qed




subsection \<open>Executions of the default build\<close>

lemma html_pipeline_mono:
  assumes "html_pipeline cssPath jsPath T fs = Some fs'" and "map_of fs p \<noteq> None"
  shows "map_of fs' p \<noteq> None"
proof -
  from assms(1) have "fs' = dest_write ''../templates'' (dest_pass ''dist'' (html_out cssPath jsPath T fs))
      (dest_write ''dist'' (html_out cssPath jsPath T fs) fs)"
    by (auto simp: html_pipeline_eq split: if_splits)
  with assms(2) show ?thesis by (simp add: dest_write_mono)
qed

lemma task_fn_mono:
  assumes "task_fn T t fs = Some fs'" and "map_of fs p \<noteq> None"
  shows "map_of fs' p \<noteq> None"
proof (cases t)
  case Html
  with assms(1) have "html_pipeline ''dist/main.css'' ''dist/main.js'' T fs = Some fs'"
    by (simp add: html_def)
  then show ?thesis using assms(2) by (rule html_pipeline_mono)
next
  case Sass_preprocessor
  with assms(1) have "fs' = dest_write ''dist/scss'' (pre_out T fs) fs"
    by (auto simp: sass_preprocessor_def pre_out_def)
  with assms(2) show ?thesis by (simp only: dest_write_mono not_False_eq_True)
next
  case Css
  with assms(1) have "fs' = dest_write ''dist'' (css_out T fs) fs"
    by (auto simp: css_eq split: if_splits)
  with assms(2) show ?thesis by (simp only: dest_write_mono not_False_eq_True)
next
  case Ipython_css
  with assms(1) have "fs' = dest_write ''../templates'' (src_paths [''dist/ipython.css''] fs) fs"
    by (auto simp: ipython_css_def)
  with assms(2) show ?thesis by (simp only: dest_write_mono not_False_eq_True)
next
  case Js
  with assms(1) obtain fls where "fs' = dest_write ''dist'' fls fs"
    by (auto simp: js_def js_pipeline_def)
  with assms(2) show ?thesis by (simp only: dest_write_mono not_False_eq_True)
next
  case Default
  with assms show ?thesis by simp
qed

lemma js_pipeline_other:
  assumes "js_pipeline name T fs = Some fs'" and "p \<noteq> ''dist/'' @ name"
  shows "map_of fs' p = map_of fs p"
proof -
  let ?C = "concat_files name (src_paths [requireJsPath, ''src/js/main.js''] fs)"
  from assms(1) obtain fls where fs': "fs' = dest_write ''dist'' fls fs"
    and fls: "Option.bind (map_contents_opt (babel T) ?C) (map_contents_opt (uglify T)) = Some fls"
    by (auto simp: js_pipeline_def)
  from fls have "map relative fls = map relative ?C"
    unfolding map_contents_opt_bind map_contents_opt_eq
    by (auto simp: map_contents_def split: if_splits)
  then have "set (map relative fls) \<subseteq> {name}"
    by (auto simp: concat_files_def split: list.splits)
  then have rel: "relative v = name" if "v \<in> set fls" for v
    using that by auto
  show ?thesis
    unfolding fs'
  proof (rule dest_write_other)
    fix v assume "v \<in> set fls"
    with rel assms(2) show "dest_path ''dist'' v \<noteq> p" by (auto simp: dest_path_def)
  qed
qed

lemma js_produces:
  assumes "js T fs = Some fs'" and "map_of fs ''src/js/main.js'' \<noteq> None"
  shows "map_of fs' ''dist/main.js'' \<noteq> None"
proof -
  from assms(2) obtain m where m: "map_of fs ''src/js/main.js'' = Some m" by auto
  show ?thesis
  proof (cases "map_of fs requireJsPath")
    case None
    with m assms(1) show ?thesis
      by (auto simp: js_def js_pipeline_def src_paths_Cons src_paths_Nil concat_files_def
          map_contents_opt_bind map_contents_opt_def dest_write_def update_conv' dest_path_def
          split: Option.bind_splits option.splits)
  next
    case (Some r)
    from assms(1) show ?thesis
      unfolding js_def js_pipeline_result[OF Some m] by (auto simp: update_conv')
  qed
qed

lemma ipython_css_result:
  "map_of (ipython_css fs) p =
     (if p = ''../templates/ipython.css''
      then (case map_of fs ''dist/ipython.css'' of Some c \<Rightarrow> Some (strip_bom c) | None \<Rightarrow> map_of fs p)
      else map_of fs p)"
  by (simp add: ipython_css_def src_paths_def dest_write_def update_conv' dest_path_def basename_def
      split: option.splits)

lemma scss_names:
  "glob_name ''.scss'' ''main.scss''" "glob_name ''.scss'' ''ipython.scss''"
  "\<not> is_partial ''main.scss''" "\<not> is_partial ''ipython.scss''"
  "replace_ext ''.css'' ''main.scss'' = ''main.css''"
  "replace_ext ''.css'' ''ipython.scss'' = ''ipython.css''"
  by (simp_all add: glob_name_def ends_with_def is_partial_def replace_ext_def extname_def)

lemma css_produces:
  assumes "css T fs = Some fs'"
    and "n = ''main'' \<or> n = ''ipython''" and "map_of fs (''dist/scss/'' @ n @ ''.scss'') \<noteq> None"
  shows "map_of fs' (''dist/'' @ n @ ''.css'') \<noteq> None"
  using assms(2,3) css_file[OF assms(1), of "''main.scss''"] css_file[OF assms(1), of "''ipython.scss''"]
  by (auto simp: scss_names)

lemma sass_preprocessor_produces:
  assumes "n = ''main'' \<or> n = ''ipython''" and "map_of fs (''src/scss/'' @ n @ ''.scss'') \<noteq> None"
  shows "map_of (sass_preprocessor T fs) (''dist/scss/'' @ n @ ''.scss'') \<noteq> None"
  using assms sass_preprocessor_file[of "''main.scss''" fs _ T] sass_preprocessor_file[of "''ipython.scss''" fs _ T]
  by (auto simp: scss_names)

lemma html_keeps_ipython_css:
  assumes "html T fs = Some fs'"
  shows "map_of fs' ''dist/ipython.css'' = map_of fs ''dist/ipython.css''"
    and "map_of fs' ''../templates/ipython.css'' = map_of fs ''../templates/ipython.css''"
proof -
  from assms have run: "html_pipeline ''dist/main.css'' ''dist/main.js'' T fs = Some fs'"
    by (simp add: html_def)
  have no: "\<not> glob_name ''.html'' ''ipython.css''"
    by (simp add: glob_name_def ends_with_def)
  show "map_of fs' ''dist/ipython.css'' = map_of fs ''dist/ipython.css''"
    using no by (intro html_pipeline_frame[OF run]) auto
  show "map_of fs' ''../templates/ipython.css'' = map_of fs ''../templates/ipython.css''"
    using no by (intro html_pipeline_frame[OF run]) auto
qed

lemma run_task_good:
  assumes step: "run_task T t b = Some b'" and good: "good fs0 b"
  shows "good fs0 b'"
proof -
  from step obtain fs' where r: "ready b t" and f: "task_fn T t (files b) = Some fs'"
    and b': "b' = \<lparr>files = fs', started = t # started b,
                   finished = (if calls_cb t then t # finished b else finished b)\<rparr>"
    by (auto simp: run_task_def split: if_splits option.splits)
  from r have new: "t \<notin> set (started b)" and dp: "set (deps t) \<subseteq> set (finished b)"
    by (auto simp: ready_def list_all_iff)
  from good have sub: "set (finished b) \<subseteq> set (started b)"
    and closed: "\<And>u. u \<in> set (started b) \<Longrightarrow> set (deps u) \<subseteq> set (finished b)"
    and cb: "\<And>u. u \<in> set (started b) \<Longrightarrow> calls_cb u \<Longrightarrow> u \<in> set (finished b)"
    and mono0: "\<And>p. map_of fs0 p \<noteq> None \<Longrightarrow> map_of (files b) p \<noteq> None"
    by (auto simp: good_def list_all_iff)
  from good have g5: "\<forall>n. map_of fs0 (''src/scss/'' @ n @ ''.scss'') \<noteq> None \<and> n \<in> {''main'', ''ipython''} \<longrightarrow>
         (Sass_preprocessor \<in> set (started b) \<longrightarrow> map_of (files b) (''dist/scss/'' @ n @ ''.scss'') \<noteq> None) \<and>
         (Css \<in> set (started b) \<longrightarrow> map_of (files b) (''dist/'' @ n @ ''.css'') \<noteq> None)"
    and g6: "map_of fs0 ''src/js/main.js'' \<noteq> None \<and> Js \<in> set (started b) \<longrightarrow>
         map_of (files b) ''dist/main.js'' \<noteq> None"
    and g7: "map_of fs0 ''src/scss/ipython.scss'' \<noteq> None \<and> Ipython_css \<in> set (started b) \<longrightarrow>
         map_of (files b) ''../templates/ipython.css'' =
           map_option strip_bom (map_of (files b) ''dist/ipython.css'')"
    by (simp_all add: good_def)
  have mono: "map_of fs' p \<noteq> None" if "map_of (files b) p \<noteq> None" for p
    using f that by (rule task_fn_mono)
  have 1: "set (finished b') \<subseteq> set (started b')"
    using sub by (auto simp: b')
  have 2: "list_all (\<lambda>u. list_all (\<lambda>d. d \<in> set (finished b')) (deps u)) (started b')"
    using closed dp by (auto simp: b' list_all_iff)
  have 3: "list_all (\<lambda>u. \<not> calls_cb u \<or> u \<in> set (finished b')) (started b')"
    using cb by (auto simp: b' list_all_iff)
  have 4: "map_of (files b') p \<noteq> None" if "map_of fs0 p \<noteq> None" for p
    using mono[OF mono0[OF that]] by (simp add: b')
  have 5: "(Sass_preprocessor \<in> set (started b') \<longrightarrow> map_of (files b') (''dist/scss/'' @ n @ ''.scss'') \<noteq> None) \<and>
           (Css \<in> set (started b') \<longrightarrow> map_of (files b') (''dist/'' @ n @ ''.css'') \<noteq> None)"
    if src: "map_of fs0 (''src/scss/'' @ n @ ''.scss'') \<noteq> None" and n: "n \<in> {''main'', ''ipython''}" for n
  proof -
    from g5[rule_format, OF conjI[OF src n]] have old:
      "Sass_preprocessor \<in> set (started b) \<Longrightarrow> map_of (files b) (''dist/scss/'' @ n @ ''.scss'') \<noteq> None"
      "Css \<in> set (started b) \<Longrightarrow> map_of (files b) (''dist/'' @ n @ ''.css'') \<noteq> None"
      by blast+
    from n have n': "n = ''main'' \<or> n = ''ipython''" by simp
    have a: "map_of fs' (''dist/scss/'' @ n @ ''.scss'') \<noteq> None" if "Sass_preprocessor \<in> set (started b')"
    proof (cases "t = Sass_preprocessor")
      case True
      with f have "fs' = sass_preprocessor T (files b)" by simp
      moreover have "map_of (sass_preprocessor T (files b)) (''dist/scss/'' @ n @ ''.scss'') \<noteq> None"
        using n' mono0[OF src] by (rule sass_preprocessor_produces)
      ultimately show ?thesis by simp
    next
      case False
      with that have "Sass_preprocessor \<in> set (started b)" by (auto simp: b')
      then show ?thesis by (intro mono old)
    qed
    have c: "map_of fs' (''dist/'' @ n @ ''.css'') \<noteq> None" if "Css \<in> set (started b')"
    proof (cases "t = Css")
      case True
      with dp sub have "Sass_preprocessor \<in> set (started b)" by auto
      then have "map_of (files b) (''dist/scss/'' @ n @ ''.scss'') \<noteq> None" by (rule old)
      moreover from True f have "css T (files b) = Some fs'" by simp
      ultimately show ?thesis using n' by (intro css_produces)
    next
      case False
      with that have "Css \<in> set (started b)" by (auto simp: b')
      then show ?thesis by (intro mono old)
    qed
    from a c show ?thesis by (simp add: b')
  qed
  have 6: "map_of (files b') ''dist/main.js'' \<noteq> None"
    if src: "map_of fs0 ''src/js/main.js'' \<noteq> None" and j: "Js \<in> set (started b')"
  proof (cases "t = Js")
    case True
    with f have "js T (files b) = Some fs'" by simp
    then have "map_of fs' ''dist/main.js'' \<noteq> None"
      using mono0[OF src] by (rule js_produces)
    then show ?thesis by (simp add: b')
  next
    case False
    with j have "Js \<in> set (started b)" by (auto simp: b')
    with g6 src have "map_of (files b) ''dist/main.js'' \<noteq> None" by blast
    then show ?thesis using mono by (simp add: b')
  qed
  have 7: "map_of (files b') ''../templates/ipython.css'' =
             map_option strip_bom (map_of (files b') ''dist/ipython.css'')"
    if src: "map_of fs0 ''src/scss/ipython.scss'' \<noteq> None" and i: "Ipython_css \<in> set (started b')"
  proof (cases "t = Ipython_css")
    case True
    with dp sub have "Css \<in> set (started b)" by auto
    moreover have "map_of fs0 (''src/scss/'' @ ''ipython'' @ ''.scss'') \<noteq> None \<and> ''ipython'' \<in> {''main'', ''ipython''}"
      using src by simp
    ultimately have "map_of (files b) (''dist/'' @ ''ipython'' @ ''.css'') \<noteq> None"
      using g5[rule_format, of "''ipython''"] by blast
    then obtain c where "map_of (files b) ''dist/ipython.css'' = Some c" by auto
    moreover from True f have "fs' = ipython_css (files b)" by simp
    ultimately show ?thesis by (simp add: b' ipython_css_result)
  next
    case False
    with i have old: "Ipython_css \<in> set (started b)" by (auto simp: b')
    with g7 src have eq: "map_of (files b) ''../templates/ipython.css'' =
        map_option strip_bom (map_of (files b) ''dist/ipython.css'')"
      by blast
    from closed[OF old] sub have css: "Css \<in> set (started b)" by auto
    from closed[OF css] sub have pre: "Sass_preprocessor \<in> set (started b)" by auto
    have keep: "map_of fs' ''dist/ipython.css'' = map_of (files b) ''dist/ipython.css'' \<and>
          map_of fs' ''../templates/ipython.css'' = map_of (files b) ''../templates/ipython.css''"
    proof (cases t)
      case Js
      with f have "js_pipeline ''main.js'' T (files b) = Some fs'" by (simp add: js_def)
      then show ?thesis by (auto simp: js_pipeline_other)
    next
      case Html
      with f show ?thesis by (auto simp: html_keeps_ipython_css)
    next
      case Default
      with f show ?thesis by simp
    qed (use new old css pre in auto)
    with eq show ?thesis by (simp add: b')
  qed
  show ?thesis
    unfolding good_def
  proof (intro conjI allI impI)
    show "set (finished b') \<subseteq> set (started b')" by (rule 1)
    show "list_all (\<lambda>u. list_all (\<lambda>d. d \<in> set (finished b')) (deps u)) (started b')" by (rule 2)
    show "list_all (\<lambda>u. \<not> calls_cb u \<or> u \<in> set (finished b')) (started b')" by (rule 3)
  qed (use 4 5 6 7 in blast)+
qed

lemma run_good:
  assumes "run T ts b = Some b'" and "good fs0 b"
  shows "good fs0 b'"
  using assms
proof (induction ts arbitrary: b)
  case Nil
  then show ?case by simp
next
  case (Cons t ts)
  then obtain b1 where "run_task T t b = Some b1" "run T ts b1 = Some b'"
    by (auto split: option.splits)
  with Cons.IH[of b1] run_task_good[of T t b b1 fs0] Cons.prems(2) show ?case by blast
qed

lemma good_initial: "good fs0 (initial fs0)"
  by (simp add: good_def initial_def)

text \<open>
  C5: in every execution of the default build, at the moment the \<^verbatim>\<open>html\<close> task can start
  (and from then on) the \<^verbatim>\<open>css\<close> and \<^verbatim>\<open>js\<close> tasks have completed; when the project has its
  sources \<^verbatim>\<open>src/scss/main.scss\<close> and \<^verbatim>\<open>src/js/main.js\<close>, both bundles are in \<^verbatim>\<open>dist\<close> at that
  moment, so the reads of the \<^verbatim>\<open>html\<close> task succeed, and the task can only fail in
  html-minifier.
\<close>

theorem html_runs_after_css_and_js:
  assumes "run T ts (initial fs0) = Some b"
    and "ready b Html \<or> Html \<in> set (started b)"
    and "map_of fs0 ''src/scss/main.scss'' \<noteq> None" and "map_of fs0 ''src/js/main.js'' \<noteq> None"
  shows "Css \<in> set (finished b) \<and> Js \<in> set (finished b) \<and>
         Css \<in> set (started b) \<and> Js \<in> set (started b) \<and>
         readFileSync (files b) ''dist/main.css'' \<noteq> None \<and>
         readFileSync (files b) ''dist/main.js'' \<noteq> None \<and>
         ((\<forall>x. htmlmin T x \<noteq> None) \<longrightarrow> html T (files b) \<noteq> None)"
proof -
  have g: "good fs0 b"
    using assms(1) good_initial by (rule run_good)
  then have sub: "set (finished b) \<subseteq> set (started b)"
    and closed: "\<And>u. u \<in> set (started b) \<Longrightarrow> set (deps u) \<subseteq> set (finished b)"
    by (auto simp: good_def list_all_iff)
  from assms(2) closed[of Html] have fin: "Css \<in> set (finished b)" "Js \<in> set (finished b)"
    by (auto simp: ready_def)
  with sub have st: "Css \<in> set (started b)" "Js \<in> set (started b)" by auto
  have "map_of fs0 (''src/scss/'' @ ''main'' @ ''.scss'') \<noteq> None \<and> ''main'' \<in> {''main'', ''ipython''}"
    using assms(3) by simp
  with g st(1) have "map_of (files b) (''dist/'' @ ''main'' @ ''.css'') \<noteq> None"
    unfolding good_def by blast
  then have c: "map_of (files b) ''dist/main.css'' \<noteq> None" by simp
  from g st(2) assms(4) have j: "map_of (files b) ''dist/main.js'' \<noteq> None"
    unfolding good_def by blast
  from c j obtain style script where s: "map_of (files b) ''dist/main.css'' = Some style"
    "map_of (files b) ''dist/main.js'' = Some script"
    by auto
  have "html T (files b) \<noteq> None" if "\<forall>x. htmlmin T x \<noteq> None"
    unfolding html_def using s that by (rule html_pipeline_total)
  with fin st c j show ?thesis by (simp add: readFileSync_def)
qed

theorem html_runs_after_css_and_js_witness:
  "\<exists>b. run plain_tools [Js, Sass_preprocessor, Css] (initial demo_project) = Some b \<and>
       ready b Html \<and> Css \<in> set (finished b) \<and> Js \<in> set (finished b) \<and>
       readFileSync (files b) ''dist/main.css'' \<noteq> None \<and>
       readFileSync (files b) ''dist/main.js'' \<noteq> None \<and>
       html plain_tools (files b) \<noteq> None"
proof -
  have "run plain_tools [Js, Sass_preprocessor, Css] (initial demo_project) \<noteq> None"
    by code_simp
  then obtain b where b: "run plain_tools [Js, Sass_preprocessor, Css] (initial demo_project) = Some b"
    by blast
  have "ready (the (run plain_tools [Js, Sass_preprocessor, Css] (initial demo_project))) Html"
    by code_simp
  with b have r: "ready b Html" by simp
  have s: "map_of demo_project ''src/scss/main.scss'' \<noteq> None"
    "map_of demo_project ''src/js/main.js'' \<noteq> None"
    by (simp_all add: demo_project_def demo_styles_def)
  have t: "\<forall>x. htmlmin plain_tools x \<noteq> None"
    by (simp add: plain_tools_def)
  from html_runs_after_css_and_js[OF b disjI1[OF r] s] t b r show ?thesis by blast
qed

text \<open>
  C10: \<^verbatim>\<open>ipython-css\<close> is a dependency of \<^verbatim>\<open>default\<close>. In every execution of the default
  build of a project that has \<^verbatim>\<open>src/scss/ipython.scss\<close>: when \<^verbatim>\<open>ipython-css\<close> can start,
  \<^verbatim>\<open>css\<close> has completed and \<^verbatim>\<open>dist/ipython.css\<close> exists, and the task writes what \<^verbatim>\<open>gulp.src\<close>
  reads from it to \<^verbatim>\<open>../templates/ipython.css\<close> and changes nothing else. What \<^verbatim>\<open>gulp.src\<close>
  reads is the file without a byte order mark at its start: the copy holds the very bytes
  of a compiled style sheet that does not start with that mark. Once the task has run, the
  copy stays what it was written as; and a build that has nothing left to run has run
  \<^verbatim>\<open>ipython-css\<close>.
\<close>

theorem ipython_css_copied_after_css:
  assumes "run T ts (initial fs0) = Some b" and "map_of fs0 ''src/scss/ipython.scss'' \<noteq> None"
  shows "Ipython_css \<in> set (deps Default) \<and>
         (ready b Ipython_css \<longrightarrow>
            Css \<in> set (finished b) \<and>
            (\<exists>c. map_of (files b) ''dist/ipython.css'' = Some c \<and>
                 map_of (ipython_css (files b)) ''../templates/ipython.css'' = Some (strip_bom c) \<and>
                 (strip_prefix byte_order_mark c = None \<longrightarrow>
                    map_of (ipython_css (files b)) ''../templates/ipython.css'' = Some c)) \<and>
            (\<forall>p. p \<noteq> ''../templates/ipython.css'' \<longrightarrow>
                 map_of (ipython_css (files b)) p = map_of (files b) p)) \<and>
         (Ipython_css \<in> set (started b) \<longrightarrow>
            Css \<in> set (finished b) \<and>
            (\<exists>c. map_of (files b) ''dist/ipython.css'' = Some c \<and>
                 map_of (files b) ''../templates/ipython.css'' = Some (strip_bom c) \<and>
                 (strip_prefix byte_order_mark c = None \<longrightarrow>
                    map_of (files b) ''../templates/ipython.css'' = Some c))) \<and>
         ((\<forall>t. \<not> ready b t) \<longrightarrow> Ipython_css \<in> set (started b))"
proof -
  have g: "good fs0 b"
    using assms(1) good_initial by (rule run_good)
  then have sub: "set (finished b) \<subseteq> set (started b)"
    and closed: "\<And>u. u \<in> set (started b) \<Longrightarrow> set (deps u) \<subseteq> set (finished b)"
    and cb: "\<And>u. u \<in> set (started b) \<Longrightarrow> calls_cb u \<Longrightarrow> u \<in> set (finished b)"
    by (auto simp: good_def list_all_iff)
  have src: "map_of fs0 (''src/scss/'' @ ''ipython'' @ ''.scss'') \<noteq> None \<and> ''ipython'' \<in> {''main'', ''ipython''}"
    using assms(2) by simp
  have nb: "strip_bom c = c" if "strip_prefix byte_order_mark c = None" for c
    using that by (simp add: strip_bom_def)
  have css: "map_of (files b) ''dist/ipython.css'' \<noteq> None" if "Css \<in> set (finished b)"
  proof -
    from that sub have "Css \<in> set (started b)" by auto
    with g src have "map_of (files b) (''dist/'' @ ''ipython'' @ ''.css'') \<noteq> None"
      unfolding good_def by blast
    then show ?thesis by simp
  qed
  have 1: "Css \<in> set (finished b) \<and>
            (\<exists>c. map_of (files b) ''dist/ipython.css'' = Some c \<and>
                 map_of (ipython_css (files b)) ''../templates/ipython.css'' = Some (strip_bom c) \<and>
                 (strip_prefix byte_order_mark c = None \<longrightarrow>
                    map_of (ipython_css (files b)) ''../templates/ipython.css'' = Some c)) \<and>
            (\<forall>p. p \<noteq> ''../templates/ipython.css'' \<longrightarrow>
                 map_of (ipython_css (files b)) p = map_of (files b) p)"
    if "ready b Ipython_css"
  proof -
    from that have fin: "Css \<in> set (finished b)" by (simp add: ready_def)
    from css[OF fin] obtain c where "map_of (files b) ''dist/ipython.css'' = Some c" by auto
    with fin nb[of c] show ?thesis by (simp add: ipython_css_result)
  qed
  have 2: "Css \<in> set (finished b) \<and>
            (\<exists>c. map_of (files b) ''dist/ipython.css'' = Some c \<and>
                 map_of (files b) ''../templates/ipython.css'' = Some (strip_bom c) \<and>
                 (strip_prefix byte_order_mark c = None \<longrightarrow>
                    map_of (files b) ''../templates/ipython.css'' = Some c))"
    if "Ipython_css \<in> set (started b)"
  proof -
    from closed[OF that] have fin: "Css \<in> set (finished b)" by simp
    from g that assms(2) have eq: "map_of (files b) ''../templates/ipython.css'' =
        map_option strip_bom (map_of (files b) ''dist/ipython.css'')"
      unfolding good_def by blast
    from css[OF fin] obtain c where "map_of (files b) ''dist/ipython.css'' = Some c" by auto
    with fin eq nb[of c] show ?thesis by simp
  qed
  have 3: "Ipython_css \<in> set (started b)" if idle: "\<forall>t. \<not> ready b t"
  proof -
    from idle have "\<not> ready b Sass_preprocessor" by blast
    then have "Sass_preprocessor \<in> set (started b)" by (simp add: ready_def)
    then have "Sass_preprocessor \<in> set (finished b)" by (rule cb) simp
    moreover from idle have "\<not> ready b Css" by blast
    ultimately have "Css \<in> set (started b)" by (simp add: ready_def)
    then have "Css \<in> set (finished b)" by (rule cb) simp
    moreover from idle have "\<not> ready b Ipython_css" by blast
    ultimately show ?thesis by (simp add: ready_def)
  qed
  from 1 2 3 show ?thesis by simp
qed

theorem ipython_css_copied_after_css_witness:
  "\<exists>b. run plain_tools [Sass_preprocessor, Css, Ipython_css] (initial demo_project) = Some b \<and>
       Ipython_css \<in> set (started b) \<and> Css \<in> set (finished b) \<and>
       map_of (files b) ''../templates/ipython.css'' = Some ''a{}'' \<and>
       map_of (files b) ''dist/ipython.css'' = Some ''a{}'' \<and>
       run marking_tools [Sass_preprocessor, Css, Ipython_css] (initial demo_project) \<noteq> None \<and>
       map_of (files (the (run marking_tools [Sass_preprocessor, Css, Ipython_css] (initial demo_project))))
         ''dist/ipython.css'' = Some (byte_order_mark @ ''a{}'') \<and>
       map_of (files (the (run marking_tools [Sass_preprocessor, Css, Ipython_css] (initial demo_project))))
         ''../templates/ipython.css'' = Some ''a{}''"
proof -
  let ?r = "run plain_tools [Sass_preprocessor, Css, Ipython_css] (initial demo_project)"
  let ?m = "run marking_tools [Sass_preprocessor, Css, Ipython_css] (initial demo_project)"
  have m: "?m \<noteq> None"
    "map_of (files (the ?m)) ''dist/ipython.css'' = Some (byte_order_mark @ ''a{}'')"
    "map_of (files (the ?m)) ''../templates/ipython.css'' = Some ''a{}''"
    by code_simp+
  have "?r \<noteq> None" by code_simp
  then obtain b where b: "?r = Some b" by blast
  have "Ipython_css \<in> set (started (the ?r))" by code_simp
  with b have i: "Ipython_css \<in> set (started b)" by simp
  have "map_of (files (the ?r)) ''dist/ipython.css'' = Some ''a{}''" by code_simp
  with b have d: "map_of (files b) ''dist/ipython.css'' = Some ''a{}''" by simp
  have s: "map_of demo_project ''src/scss/ipython.scss'' \<noteq> None"
    by (simp add: demo_project_def demo_styles_def)
  have n: "strip_prefix byte_order_mark ''a{}'' = None"
    by (simp add: byte_order_mark_def)
  from ipython_css_copied_after_css[OF b s] i d n b
  have "Ipython_css \<in> set (started b) \<and> Css \<in> set (finished b) \<and>
       map_of (files b) ''../templates/ipython.css'' = Some ''a{}'' \<and>
       map_of (files b) ''dist/ipython.css'' = Some ''a{}''"
    by auto
  with b m show ?thesis by blast
qed

subsection \<open>Two runs on the same input files\<close>
























end
